theory Spec2Isabelle
  imports Main "HOL-Library.Sublist"
begin

section \<open>Python strings over the code points U+0000 .. U+00FF\<close>

text \<open>
  A Python \<open>str\<close> is a sequence of code points. The model takes a \<^typ>\<open>string\<close>
  (a list of 8-bit \<^typ>\<open>char\<close>s) and reads every \<^typ>\<open>char\<close> as the code point
  of the same number, so it covers the texts whose code points are below 256. The
  character classes below are those of Python 3 on that range: \<open>\w\<close>, \<open>\s\<close>
  and \<open>\d\<close> of \<open>re\<close> for \<open>str\<close> patterns, and \<open>str.isspace\<close>,
  \<open>str.isdigit\<close>, \<open>str.lower\<close>.
\<close>

definition cp :: "char \<Rightarrow> nat" where
  "cp c = of_char c"

definition in_range :: "nat \<Rightarrow> nat \<Rightarrow> nat \<Rightarrow> bool" where
  "in_range lo hi n = (lo \<le> n \<and> n \<le> hi)"

text \<open>\<open>\d\<close>: the decimal digits; below 256 these are \<open>0\<close> .. \<open>9\<close>.\<close>

definition is_digit :: "char \<Rightarrow> bool" where
  "is_digit c = in_range 48 57 (cp c)"

text \<open>
  \<open>\w\<close>: alphanumeric or underscore. Below 256: \<open>0-9\<close>, \<open>A-Z\<close>, \<open>_\<close>,
  \<open>a-z\<close>, and the Latin-1 letters and numeric characters U+00AA, U+00B2, U+00B3, U+00B5,
  U+00B9, U+00BA, U+00BC .. U+00BE, U+00C0 .. U+00D6, U+00D8 .. U+00F6, U+00F8 .. U+00FF.
\<close>

definition is_word :: "char \<Rightarrow> bool" where
  "is_word c = (let n = cp c in
     in_range 48 57 n \<or> in_range 65 90 n \<or> n = 95 \<or> in_range 97 122 n \<or>
     n = 170 \<or> in_range 178 179 n \<or> n = 181 \<or> in_range 185 186 n \<or>
     in_range 188 190 n \<or> in_range 192 214 n \<or> in_range 216 246 n \<or>
     in_range 248 255 n)"

text \<open>
  \<open>\s\<close> and \<open>str.isspace\<close> (the same set): U+0009 .. U+000D, U+001C .. U+0020,
  U+0085, U+00A0.
\<close>

definition is_space :: "char \<Rightarrow> bool" where
  "is_space c = (let n = cp c in
     in_range 9 13 n \<or> in_range 28 32 n \<or> n = 133 \<or> n = 160)"

text \<open>
  \<open>str.isdigit\<close> of one character: the decimal digits and the superscripts U+00B2,
  U+00B3, U+00B9 (which \<open>int\<close> refuses).
\<close>

definition is_py_digit :: "char \<Rightarrow> bool" where
  "is_py_digit c = (let n = cp c in in_range 48 57 n \<or> in_range 178 179 n \<or> n = 185)"

text \<open>\<open>str.lower\<close>: \<open>A-Z\<close>, U+00C0 .. U+00D6 and U+00D8 .. U+00DE move up by 32.\<close>

definition lower_char :: "char \<Rightarrow> char" where
  "lower_char c = (let n = cp c in
     if in_range 65 90 n \<or> in_range 192 214 n \<or> in_range 216 222 n
     then char_of (n + 32) else c)"

definition lower :: "string \<Rightarrow> string" where
  "lower s = map lower_char s"

text \<open>\<open>s.strip()\<close>: leading and trailing whitespace removed.\<close>

definition lstrip :: "string \<Rightarrow> string" where
  "lstrip s = dropWhile is_space s"

definition rstrip :: "string \<Rightarrow> string" where
  "rstrip s = rev (dropWhile is_space (rev s))"

definition strip :: "string \<Rightarrow> string" where
  "strip s = rstrip (lstrip s)"

text \<open>\<open>' '.join(ts)\<close>.\<close>

fun join_space :: "string list \<Rightarrow> string" where
  "join_space [] = []"
| "join_space [t] = t"
| "join_space (t # u # ts) = t @ CHR '' '' # join_space (u # ts)"

text \<open>\<open>ts[i:j]\<close> for \<open>0 \<le> i\<close>, \<open>0 \<le> j\<close>.\<close>

definition slice :: "'a list \<Rightarrow> nat \<Rightarrow> nat \<Rightarrow> 'a list" where
  "slice ts i j = take (j - i) (drop i ts)"

text \<open>
  \<open>str(n)\<close> of an integer: its decimal digits, with a minus sign below zero. Python's
  integers are unbounded, and so are these (the interpreter's configurable limit on the
  length of such conversions is not part of the model).
\<close>

definition digit_char :: "int \<Rightarrow> char" where
  "digit_char d = char_of (48 + d)"

function dec_str :: "int \<Rightarrow> string" where
  "dec_str n = (if n < 10 then [digit_char n] else dec_str (n div 10) @ [digit_char (n mod 10)])"
  by pat_completeness auto
termination
  by (relation "measure nat") (auto intro!: int_div_less_self)

declare dec_str.simps [simp del]

definition int_str :: "int \<Rightarrow> string" where
  "int_str i = (if i < 0 then CHR ''-'' # dec_str (- i) else dec_str i)"

section \<open>Python floats\<close>

text \<open>
  The grammar returns a \<open>float\<close> for a phrase with a decimal part, and the normalizer
  writes \<open>str\<close> of it. A finite non-negative \<open>float\<close> (IEEE 754 binary64) is a pair
  \<open>(m, e)\<close> with the value \<open>m * 2 ^ e\<close>: \<open>2 ^ 52 \<le> m < 2 ^ 53\<close> for a normal number,
  \<open>m < 2 ^ 52\<close> and \<open>e = - 1074\<close> for a subnormal one, \<open>(0, 0)\<close> for zero. A
  non-negative rational is a pair \<open>(p, q)\<close> of numerator and denominator.
\<close>

type_synonym pyfloat = "int \<times> int"

type_synonym fraction = "int \<times> int"

text \<open>The number of digits of \<open>n\<close> in base \<open>b\<close>.\<close>

function num_len :: "int \<Rightarrow> int \<Rightarrow> int" where
  "num_len b n = (if n \<le> 0 \<or> b \<le> 1 then 0 else 1 + num_len b (n div b))"
  by pat_completeness auto
termination
  by (relation "measure (\<lambda>(b, n). nat n)")
     (auto simp: pos_imp_zdiv_nonneg_iff intro!: int_div_less_self)

declare num_len.simps [simp del]

text \<open>\<open>(p, q)\<close> times \<open>b ^ k\<close> for an integer \<open>k\<close>.\<close>

definition scale :: "int \<Rightarrow> fraction \<Rightarrow> int \<Rightarrow> fraction" where
  "scale b x k =
     (if 0 \<le> k then (fst x * b ^ nat k, snd x) else (fst x, snd x * b ^ nat (- k)))"

text \<open>The largest \<open>k\<close> with \<open>b ^ k \<le> p / q\<close>, for \<open>p / q > 0\<close>.\<close>

definition floor_log :: "int \<Rightarrow> fraction \<Rightarrow> int" where
  "floor_log b x =
     (let d = num_len b (fst x) - num_len b (snd x);
          y = scale b x (- d)
      in if snd y \<le> fst y then d else d - 1)"

text \<open>Rounding to the nearest integer, ties to the even one.\<close>

definition round_half_even :: "fraction \<Rightarrow> int" where
  "round_half_even x =
     (let n = fst x div snd x; r = fst x mod snd x
      in if snd x < 2 * r \<or> (2 * r = snd x \<and> odd n) then n + 1 else n)"

text \<open>The float nearest to a rational (below the overflow threshold).\<close>

definition to_float :: "fraction \<Rightarrow> pyfloat" where
  "to_float x =
     (if fst x = 0 then (0, 0)
      else let e = max (floor_log 2 x - 52) (- 1074);
               m = round_half_even (scale 2 x (- e))
           in if m = 0 then (0, 0) else if m = 2 ^ 53 then (2 ^ 52, e + 1) else (m, e))"

definition float_value :: "pyfloat \<Rightarrow> fraction" where
  "float_value f = scale 2 (fst f, 1) (snd f)"

text \<open>\<open>x + y\<close> of two floats: the float nearest to the exact sum.\<close>

definition float_add :: "pyfloat \<Rightarrow> pyfloat \<Rightarrow> pyfloat" where
  "float_add f g =
     (let x = float_value f; y = float_value g
      in to_float (fst x * snd y + fst y * snd x, snd x * snd y))"

text \<open>\<open>float(n)\<close> of a non-negative integer, and \<open>float('0.' + digits)\<close>.\<close>

definition float_of_int :: "int \<Rightarrow> pyfloat" where
  "float_of_int n = to_float (n, 1)"

definition digits_value :: "int list \<Rightarrow> int" where
  "digits_value ds = foldl (\<lambda>a d. 10 * a + d) 0 ds"

definition float_of_decimals :: "int list \<Rightarrow> pyfloat" where
  "float_of_decimals ds = to_float (digits_value ds, 10 ^ length ds)"

text \<open>
  \<open>str\<close> (and \<open>repr\<close>) of a float takes the shortest string of digits that reads back
  as the same float, of two such strings the one nearer to the float; 17 digits always
  suffice. \<open>shortest_digits f k n\<close> tries \<open>k\<close>, \<open>k + 1\<close>, ... digits, \<open>n\<close> times, and
  gives the digits as a number together with the power of ten of the last digit.
\<close>

definition nearer_lo :: "int \<Rightarrow> int \<Rightarrow> int \<Rightarrow> bool" where
  "nearer_lo lo r q = (2 * r < q \<or> (2 * r = q \<and> even lo))"

fun shortest_digits :: "pyfloat \<Rightarrow> int \<Rightarrow> nat \<Rightarrow> int \<times> int" where
  "shortest_digits f k 0 = (0, 0)"
| "shortest_digits f k (Suc n) =
     (let v = float_value f;
          sc = floor_log 10 v - k + 1;
          s = scale 10 v (- sc);
          lo = fst s div snd s;
          hi = lo + 1;
          r = fst s mod snd s;
          ok_lo = (to_float (scale 10 (lo, 1) sc) = f);
          ok_hi = (to_float (scale 10 (hi, 1) sc) = f)
      in if ok_lo \<and> ok_hi then (if nearer_lo lo r (snd s) then (lo, sc) else (hi, sc))
         else if ok_lo then (lo, sc)
         else if ok_hi then (hi, sc)
         else if n = 0 then (if nearer_lo lo r (snd s) then (lo, sc) else (hi, sc))
         else shortest_digits f (k + 1) n)"

function strip_zeros :: "int \<Rightarrow> int \<Rightarrow> int \<times> int" where
  "strip_zeros c sc =
     (if 0 < c \<and> c mod 10 = 0 then strip_zeros (c div 10) (sc + 1) else (c, sc))"
  by pat_completeness auto
termination
  by (relation "measure (\<lambda>(c, sc). nat c)") (auto intro!: int_div_less_self)

declare strip_zeros.simps [simp del]

text \<open>
  The digits are written with the decimal point at position \<open>decpt\<close>, with an exponent
  when \<open>decpt \<le> - 4\<close> or \<open>decpt > 16\<close>, and with \<open>.0\<close> behind an integral value.
\<close>

definition float_repr :: "pyfloat \<Rightarrow> string" where
  "float_repr f =
     (if fst f = 0 then ''0.0''
      else let (c, sc) = (case shortest_digits f 1 17 of (c, sc) \<Rightarrow> strip_zeros c sc);
               ds = dec_str c;
               decpt = int (length ds) + sc
           in if decpt \<le> - 4 \<or> 16 < decpt then
                (let x = decpt - 1;
                     xs = dec_str \<bar>x\<bar>
                 in take 1 ds @ (if 1 < length ds then ''.'' @ drop 1 ds else [])
                    @ ''e'' @ (if x < 0 then ''-'' else ''+'')
                    @ (if length xs < 2 then ''0'' @ xs else xs))
              else if decpt \<le> 0 then ''0.'' @ replicate (nat (- decpt)) CHR ''0'' @ ds
              else if int (length ds) \<le> decpt then
                ds @ replicate (nat (decpt - int (length ds))) CHR ''0'' @ ''.0''
              else take (nat decpt) ds @ ''.'' @ drop (nat decpt) ds)"

section \<open>The regular expressions of the normalizer\<close>

text \<open>\<open>re.fullmatch(r"\w+", t)\<close>.\<close>

definition fullmatch_word :: "string \<Rightarrow> bool" where
  "fullmatch_word t = (t \<noteq> [] \<and> list_all is_word t)"

text \<open>\<open>re.fullmatch(r"[^\w]", t)\<close>: exactly one character, and not a word character.\<close>

fun fullmatch_nonword :: "string \<Rightarrow> bool" where
  "fullmatch_nonword [c] = (\<not> is_word c)"
| "fullmatch_nonword _ = False"

text \<open>
  \<open>re.findall(r"\w+|[^\w\s]", text)\<close>: at each position the first alternative takes the
  longest run of word characters, the second one character that is neither a word
  character nor whitespace; where neither matches (whitespace) the scan moves one character
  on.
\<close>

function tokenize :: "string \<Rightarrow> string list" where
  "tokenize [] = []"
| "tokenize (c # cs) =
     (if is_word c then (c # takeWhile is_word cs) # tokenize (dropWhile is_word cs)
      else if is_space c then tokenize cs
      else [c] # tokenize cs)"
  by pat_completeness auto
termination
  by (relation "measure length") (auto simp: length_dropWhile_le less_Suc_eq_le)

section \<open>Results of the number-word grammar\<close>

text \<open>
  \<open>w2n.word_to_num\<close> returns an \<open>int\<close> or a \<open>float\<close>, or raises an exception.
\<close>

datatype py_exn = ValueError | IndexError | KeyError | TypeError

datatype py_num = PyInt int | PyFloat pyfloat

fun py_str :: "py_num \<Rightarrow> string" where
  "py_str (PyInt i) = int_str i"
| "py_str (PyFloat f) = float_repr f"

type_synonym grammar = "string \<Rightarrow> py_exn + py_num"

section \<open>replace\_number\_words\<close>

text \<open>The phrase of the window \<open>tokens[i:j]\<close>: \<open>' '.join(tokens[i:j]).lower()\<close>.\<close>

definition phrase :: "string list \<Rightarrow> nat \<Rightarrow> nat \<Rightarrow> string" where
  "phrase tokens i j = lower (join_space (slice tokens i j))"

text \<open>
  The inner loop \<open>for j in range(len(tokens), i, -1)\<close>, entered at \<open>j\<close>: the first window
  that the grammar accepts gives \<open>Some (num, j)\<close> (the \<open>break\<close>), a \<open>ValueError\<close> moves to
  the next shorter window (the \<open>continue\<close>), any other exception leaves the function, and
  \<open>None\<close> is the \<open>else\<close> branch of the loop.
\<close>

function match_longest :: "grammar \<Rightarrow> string list \<Rightarrow> nat \<Rightarrow> nat \<Rightarrow> py_exn + (py_num \<times> nat) option" where
  "match_longest w2n tokens i j =
     (if j \<le> i then Inr None
      else case w2n (phrase tokens i j) of
             Inr num \<Rightarrow> Inr (Some (num, j))
           | Inl ValueError \<Rightarrow> match_longest w2n tokens i (j - 1)
           | Inl e \<Rightarrow> Inl e)"
  by pat_completeness auto
termination
  by (relation "measure (\<lambda>(w2n, tokens, i, j). j)") auto

declare match_longest.simps [simp del]

lemma match_longest_bounds:
  "match_longest w2n tokens i j = Inr (Some (num, k)) \<Longrightarrow> i < k \<and> k \<le> j"
proof (induction w2n tokens i j rule: match_longest.induct)
  case (1 w2n tokens i j)
  show ?case
  proof (cases "j \<le> i")
    case True
    with "1.prems" show ?thesis by (simp add: match_longest.simps)
  next
    case False
    show ?thesis
    proof (cases "w2n (phrase tokens i j)")
      case (Inr n)
      with False "1.prems" show ?thesis by (simp add: match_longest.simps)
    next
      case (Inl e)
      show ?thesis
      proof (cases e)
        case ValueError
        with False Inl "1.prems" "1.IH" have "i < k \<and> k \<le> j - 1"
          by (simp add: match_longest.simps)
        then show ?thesis by arith
      next
        case IndexError
        with False Inl "1.prems" show ?thesis by (simp add: match_longest.simps)
      next
        case KeyError
        with False Inl "1.prems" show ?thesis by (simp add: match_longest.simps)
      next
        case TypeError
        with False Inl "1.prems" show ?thesis by (simp add: match_longest.simps)
      qed
    qed
  qed
qed

text \<open>
  The outer loop \<open>while i < len(tokens)\<close> with its state \<open>i\<close>, \<open>out\<close>.
\<close>

function while_tokens :: "grammar \<Rightarrow> string list \<Rightarrow> nat \<Rightarrow> string list \<Rightarrow> py_exn + string list" where
  "while_tokens w2n tokens i out =
     (if i < length tokens then
        (if fullmatch_word (tokens ! i) then
           (case match_longest w2n tokens i (length tokens) of
              Inl e \<Rightarrow> Inl e
            | Inr (Some (num, j)) \<Rightarrow> while_tokens w2n tokens j (out @ [py_str num])
            | Inr None \<Rightarrow> while_tokens w2n tokens (i + 1) (out @ [tokens ! i]))
         else while_tokens w2n tokens (i + 1) (out @ [tokens ! i]))
      else Inr out)"
  by pat_completeness auto
termination
  by (relation "measure (\<lambda>(w2n, tokens, i, out). length tokens - i)")
     (auto dest: match_longest_bounds)

declare while_tokens.simps [simp del]

text \<open>
  The reassembly
  \<open>''.join(t if re.fullmatch(r"[^\w]", t) else t + ' ' for t in out).strip()\<close>.
\<close>

definition unit_text :: "string \<Rightarrow> string" where
  "unit_text t = (if fullmatch_nonword t then t else t @ '' '')"

definition reassemble :: "string list \<Rightarrow> string" where
  "reassemble out = strip (concat (map unit_text out))"

text \<open>
  \<open>replace_number_words(text, language)\<close>, with the grammar \<open>w2n.word_to_num\<close> as the
  first argument. \<open>Inl e\<close> is an exception that leaves the function.
\<close>

definition replace_number_words :: "grammar \<Rightarrow> string \<Rightarrow> string \<Rightarrow> py_exn + string" where
  "replace_number_words w2n text language =
     (if language \<noteq> ''en'' then Inr text
      else case while_tokens w2n (tokenize text) 0 [] of
             Inl e \<Rightarrow> Inl e
           | Inr out \<Rightarrow> Inr (reassemble out))"

section \<open>highlight\_numbers\<close>

text \<open>
  The markers are colorama's \<open>Fore.YELLOW\<close> and \<open>Style.RESET_ALL\<close>, the ANSI sequences
  \<open>ESC [ 3 3 m\<close> and \<open>ESC [ 0 m\<close>.
\<close>

definition Fore_YELLOW :: string where
  "Fore_YELLOW = CHR 0x1B # ''[33m''"

definition Style_RESET_ALL :: string where
  "Style_RESET_ALL = CHR 0x1B # ''[0m''"

text \<open>The replacement function \<open>hl\<close> on the matched text \<open>m.group(0)\<close>.\<close>

definition hl :: "string \<Rightarrow> string" where
  "hl n = Fore_YELLOW @ n @ Style_RESET_ALL"

text \<open>
  \<open>\b\<close> holds between two positions when exactly one side is a word character; the
  start and the end of the text count as not a word character. A position is given by
  the character before it (\<open>None\<close> at the start) and the text from it on.
\<close>

definition word_before :: "char option \<Rightarrow> bool" where
  "word_before p = (case p of None \<Rightarrow> False | Some c \<Rightarrow> is_word c)"

definition starts_word :: "string \<Rightarrow> bool" where
  "starts_word s = (case s of [] \<Rightarrow> False | c # _ \<Rightarrow> is_word c)"

definition boundary :: "char option \<Rightarrow> string \<Rightarrow> bool" where
  "boundary p s = (word_before p \<noteq> starts_word s)"

text \<open>
  \<open>\d+\b\<close> at the start of \<open>s\<close>, with \<open>k\<close> digits taken: the greedy \<open>\d+\<close> takes
  the whole run of digits first and gives back one digit at a time until \<open>\b\<close> holds
  behind it. The result is the length of the match.
\<close>

fun digits_then_boundary :: "string \<Rightarrow> nat \<Rightarrow> nat option" where
  "digits_then_boundary s 0 = None"
| "digits_then_boundary s (Suc k) =
     (if boundary (Some (s ! k)) (drop (Suc k) s) then Some (Suc k)
      else digits_then_boundary s k)"

text \<open>A match of \<open>\b\d+\b\<close> that starts at this position.\<close>

definition match_at :: "char option \<Rightarrow> string \<Rightarrow> nat option" where
  "match_at p s =
     (if boundary p s then digits_then_boundary s (length (takeWhile is_digit s)) else None)"

lemma digits_then_boundary_bounds:
  "digits_then_boundary s k = Some n \<Longrightarrow> 0 < n \<and> n \<le> k"
  by (induction k) (auto split: if_splits)

lemma match_at_bounds:
  "match_at p s = Some n \<Longrightarrow> 0 < n \<and> n \<le> length s"
proof -
  assume "match_at p s = Some n"
  then have "0 < n \<and> n \<le> length (takeWhile is_digit s)"
    by (auto simp: match_at_def dest: digits_then_boundary_bounds split: if_splits)
  moreover have "length (takeWhile is_digit s) \<le> length s"
    by (rule length_takeWhile_le)
  ultimately show ?thesis by arith
qed

text \<open>
  \<open>re.sub(r"\b\d+\b", repl, text)\<close> from a position on: a match is replaced by
  \<open>repl\<close> of its text and the scan goes on behind it; without a match one character is
  copied.
\<close>

function re_sub :: "(string \<Rightarrow> string) \<Rightarrow> char option \<Rightarrow> string \<Rightarrow> string" where
  "re_sub repl p s =
     (case match_at p s of
        Some n \<Rightarrow> repl (take n s) @ re_sub repl (Some (s ! (n - 1))) (drop n s)
      | None \<Rightarrow> (case s of [] \<Rightarrow> [] | c # cs \<Rightarrow> c # re_sub repl (Some c) cs))"
  by pat_completeness auto
termination
  by (relation "measure (\<lambda>(repl, p, s). length s)") (auto dest: match_at_bounds)

declare re_sub.simps [simp del]

definition highlight_numbers :: "string \<Rightarrow> string" where
  "highlight_numbers text = re_sub hl None text"

section \<open>The number-word grammar\<close>

text \<open>
  Modelled from the spec: the number-word grammar. The program calls \<open>w2n.word_to_num\<close>
  of the package word2number (the import in line 6), which is not among the sources of
  this repository. The specification names it the number-word grammar, says that it
  parses English cardinal numbers such as \<open>twenty three\<close>, \<open>one hundred and five\<close> and
  \<open>two thousand\<close> to their integer value, and that a phrase it does not accept is signalled
  by a failure that the normalizer treats as a control signal. The definitions below give
  the grammar that the program runs, function by function as the package (release 1.1)
  defines it: \<open>american_number_system\<close>, \<open>decimal_words\<close>, \<open>number_formation\<close>,
  \<open>get_decimal_sum\<close> and \<open>word_to_num\<close>.
\<close>

datatype dict_value = Number int | Text string

definition american_number_system :: "(string \<times> dict_value) list" where
  "american_number_system =
     [(''zero'', Number 0), (''one'', Number 1), (''two'', Number 2), (''three'', Number 3),
      (''four'', Number 4), (''five'', Number 5), (''six'', Number 6), (''seven'', Number 7),
      (''eight'', Number 8), (''nine'', Number 9), (''ten'', Number 10),
      (''eleven'', Number 11), (''twelve'', Number 12), (''thirteen'', Number 13),
      (''fourteen'', Number 14), (''fifteen'', Number 15), (''sixteen'', Number 16),
      (''seventeen'', Number 17), (''eighteen'', Number 18), (''nineteen'', Number 19),
      (''twenty'', Number 20), (''thirty'', Number 30), (''forty'', Number 40),
      (''fifty'', Number 50), (''sixty'', Number 60), (''seventy'', Number 70),
      (''eighty'', Number 80), (''ninety'', Number 90), (''hundred'', Number 100),
      (''thousand'', Number 1000), (''million'', Number 1000000),
      (''billion'', Number 1000000000), (''point'', Text ''.'')]"

definition decimal_words :: "string list" where
  "decimal_words =
     [''zero'', ''one'', ''two'', ''three'', ''four'', ''five'', ''six'', ''seven'', ''eight'',
      ''nine'']"

text \<open>\<open>word in american_number_system\<close>.\<close>

definition in_number_system :: "string \<Rightarrow> bool" where
  "in_number_system w = (case map_of american_number_system w of None \<Rightarrow> False | Some v \<Rightarrow> True)"

text \<open>
  \<open>american_number_system[word]\<close> read as a number: a missing key raises \<open>KeyError\<close>;
  the text under \<open>point\<close> is no number (the grammar cuts the words off at \<open>point\<close>
  before it looks any of them up).
\<close>

definition number_of :: "string \<Rightarrow> py_exn + int" where
  "number_of w =
     (case map_of american_number_system w of
        None \<Rightarrow> Inl KeyError
      | Some (Number n) \<Rightarrow> Inr n
      | Some (Text t) \<Rightarrow> Inl TypeError)"

fun numbers_of :: "string list \<Rightarrow> py_exn + int list" where
  "numbers_of [] = Inr []"
| "numbers_of (w # ws) =
     (case number_of w of
        Inl e \<Rightarrow> Inl e
      | Inr n \<Rightarrow> (case numbers_of ws of Inl e \<Rightarrow> Inl e | Inr ns \<Rightarrow> Inr (n # ns)))"

text \<open>
  \<open>number_formation(number_words)\<close>: the value of a group of up to four words below one
  thousand. With no word at all, \<open>numbers[0]\<close> raises \<open>IndexError\<close>.
\<close>

definition number_formation :: "string list \<Rightarrow> py_exn + int" where
  "number_formation number_words =
     (case numbers_of number_words of
        Inl e \<Rightarrow> Inl e
      | Inr numbers \<Rightarrow>
          if length numbers = 4 then
            Inr (numbers ! 0 * numbers ! 1 + numbers ! 2 + numbers ! 3)
          else if length numbers = 3 then Inr (numbers ! 0 * numbers ! 1 + numbers ! 2)
          else if length numbers = 2 then
            (if 100 \<in> set numbers then Inr (numbers ! 0 * numbers ! 1)
             else Inr (numbers ! 0 + numbers ! 1))
          else (case numbers of [] \<Rightarrow> Inl IndexError | n # ns \<Rightarrow> Inr n))"

text \<open>
  \<open>get_decimal_sum(decimal_digit_words)\<close>: the float \<open>0.d1d2...\<close> of the digit words
  behind \<open>point\<close>, or the integer 0 (here \<open>None\<close>) when one of them is no digit word.
\<close>

definition decimal_digit :: "string \<Rightarrow> int" where
  "decimal_digit w = (case number_of w of Inr n \<Rightarrow> n | Inl e \<Rightarrow> 0)"

definition get_decimal_sum :: "string list \<Rightarrow> pyfloat option" where
  "get_decimal_sum decimal_digit_words =
     (if list_all (\<lambda>w. w \<in> set decimal_words) decimal_digit_words
      then Some (float_of_decimals (map decimal_digit decimal_digit_words))
      else None)"

text \<open>\<open>s.replace('-', ' ')\<close>, \<open>s.isdigit()\<close>, \<open>int(s)\<close> and \<open>s.split()\<close>.\<close>

definition replace_hyphens :: "string \<Rightarrow> string" where
  "replace_hyphens s = map (\<lambda>c. if c = CHR ''-'' then CHR '' '' else c) s"

definition isdigit :: "string \<Rightarrow> bool" where
  "isdigit s = (s \<noteq> [] \<and> list_all is_py_digit s)"

definition digit_value :: "char \<Rightarrow> int" where
  "digit_value c = int (cp c) - 48"

definition py_int :: "string \<Rightarrow> py_exn + int" where
  "py_int s =
     (if s \<noteq> [] \<and> list_all is_digit s then Inr (digits_value (map digit_value s))
      else Inl ValueError)"

function split :: "string \<Rightarrow> string list" where
  "split s =
     (case dropWhile is_space s of
        [] \<Rightarrow> []
      | c # cs \<Rightarrow>
          (c # takeWhile (\<lambda>x. \<not> is_space x) cs) # split (dropWhile (\<lambda>x. \<not> is_space x) cs))"
  by pat_completeness auto
termination
proof (relation "measure length", goal_cases)
  case 1
  show ?case by simp
next
  case (2 s c cs)
  have "length (dropWhile (\<lambda>x. \<not> is_space x) cs) \<le> length cs"
    by (rule length_dropWhile_le)
  moreover have "length (dropWhile is_space s) \<le> length s"
    by (rule length_dropWhile_le)
  ultimately show ?case using 2 by simp
qed

declare split.simps [simp del]

text \<open>\<open>ws.index(w) if w in ws else -1\<close>.\<close>

definition index_or_minus_one :: "string list \<Rightarrow> string \<Rightarrow> int" where
  "index_or_minus_one ws w =
     (if w \<in> set ws then int (length (takeWhile (\<lambda>x. x \<noteq> w) ws)) else - 1)"

text \<open>Sequencing of two steps of which the first may raise.\<close>

definition and_then :: "py_exn + 'a \<Rightarrow> ('a \<Rightarrow> py_exn + 'b) \<Rightarrow> py_exn + 'b" where
  "and_then r f = (case r of Inl e \<Rightarrow> Inl e | Inr x \<Rightarrow> f x)"

text \<open>
  The integer part of \<open>word_to_num\<close>: \<open>total_sum\<close> after the groups before \<open>billion\<close>,
  \<open>million\<close> and \<open>thousand\<close> and the rest below one thousand.
\<close>

definition integer_part :: "string list \<Rightarrow> int \<Rightarrow> int \<Rightarrow> int \<Rightarrow> py_exn + int" where
  "integer_part clean_numbers billion_index million_index thousand_index =
     (let n = int (length clean_numbers);
          part = (\<lambda>i j. slice clean_numbers (nat i) (nat j));
          rest = (\<lambda>i. drop (nat i) clean_numbers)
      in if n = 0 then Inr 0
         else if n = 1 then number_of (clean_numbers ! 0)
         else
           and_then
             (if - 1 < billion_index then
                and_then (number_formation (part 0 billion_index))
                  (\<lambda>billion_multiplier. Inr (billion_multiplier * 1000000000))
              else Inr 0)
           (\<lambda>sum1.
           and_then
             (if - 1 < million_index then
                and_then
                  (if - 1 < billion_index
                   then number_formation (part (billion_index + 1) million_index)
                   else number_formation (part 0 million_index))
                  (\<lambda>million_multiplier. Inr (sum1 + million_multiplier * 1000000))
              else Inr sum1)
           (\<lambda>sum2.
           and_then
             (if - 1 < thousand_index then
                and_then
                  (if - 1 < million_index
                   then number_formation (part (million_index + 1) thousand_index)
                   else if - 1 < billion_index \<and> million_index = - 1
                   then number_formation (part (billion_index + 1) thousand_index)
                   else number_formation (part 0 thousand_index))
                  (\<lambda>thousand_multiplier. Inr (sum2 + thousand_multiplier * 1000))
              else Inr sum2)
           (\<lambda>sum3.
           and_then
             (if - 1 < thousand_index \<and> thousand_index \<noteq> n - 1
              then number_formation (rest (thousand_index + 1))
              else if - 1 < million_index \<and> million_index \<noteq> n - 1
              then number_formation (rest (million_index + 1))
              else if - 1 < billion_index \<and> billion_index \<noteq> n - 1
              then number_formation (rest (billion_index + 1))
              else if thousand_index = - 1 \<and> million_index = - 1 \<and> billion_index = - 1
              then number_formation clean_numbers
              else Inr 0)
           (\<lambda>hundreds. Inr (sum3 + hundreds))))))"

text \<open>
  \<open>word_to_num(number_sentence)\<close>, in three steps. The last step adds the decimal part
  to \<open>total_sum\<close>: nothing without words behind \<open>point\<close>, the integer 0 when one of
  them is no digit word, and otherwise a float, which makes the sum a float.
\<close>

definition with_decimal_part :: "int \<Rightarrow> string list \<Rightarrow> py_num" where
  "with_decimal_part total_sum clean_decimal_numbers =
     (if clean_decimal_numbers = [] then PyInt total_sum
      else case get_decimal_sum clean_decimal_numbers of
             None \<Rightarrow> PyInt total_sum
           | Some decimal_sum \<Rightarrow> PyFloat (float_add (float_of_int total_sum) decimal_sum))"

text \<open>
  The middle step works on the words of the sentence that are in
  \<open>american_number_system\<close>: a repeated \<open>thousand\<close>, \<open>million\<close>, \<open>billion\<close> or
  \<open>point\<close>, and a scale word before a larger one raise \<open>ValueError\<close>; the words are cut
  at \<open>point\<close>.
\<close>

definition words_to_num :: "string list \<Rightarrow> py_exn + py_num" where
  "words_to_num words =
     (if 1 < count_list words ''thousand'' \<or> 1 < count_list words ''million''
         \<or> 1 < count_list words ''billion'' \<or> 1 < count_list words ''point''
      then Inl ValueError
      else
        let point_index = index_or_minus_one words ''point'';
            clean_decimal_numbers =
              (if count_list words ''point'' = 1 then drop (nat (point_index + 1)) words
               else []);
            clean_numbers =
              (if count_list words ''point'' = 1 then take (nat point_index) words
               else words);
            billion_index = index_or_minus_one clean_numbers ''billion'';
            million_index = index_or_minus_one clean_numbers ''million'';
            thousand_index = index_or_minus_one clean_numbers ''thousand''
        in if (- 1 < thousand_index
               \<and> (thousand_index < million_index \<or> thousand_index < billion_index))
              \<or> (- 1 < million_index \<and> million_index < billion_index)
           then Inl ValueError
           else
             and_then
               (integer_part clean_numbers billion_index million_index thousand_index)
               (\<lambda>total_sum. Inr (with_decimal_part total_sum clean_decimal_numbers)))"

text \<open>
  The first step: hyphens become spaces and the sentence is lower-cased; a sentence of
  digits is read by \<open>int\<close>; otherwise the sentence is split at whitespace and the words
  that are not in \<open>american_number_system\<close> are dropped, and no word left raises
  \<open>ValueError\<close>.
\<close>

definition word_to_num :: "string \<Rightarrow> py_exn + py_num" where
  "word_to_num sentence =
     (let number_sentence = lower (replace_hyphens sentence)
      in if isdigit number_sentence then and_then (py_int number_sentence) (\<lambda>n. Inr (PyInt n))
         else
           let split_words = split (strip number_sentence);
               words = filter in_number_system split_words
           in if words = [] then Inl ValueError else words_to_num words)"

section \<open>Notions of the specification\<close>

text \<open>
  A word-token is a non-empty run of word characters, a separator-token one character
  that is neither a word character nor whitespace.
\<close>

definition is_separator :: "string \<Rightarrow> bool" where
  "is_separator t =
     (case t of [c] \<Rightarrow> (if is_word c then False else if is_space c then False else True)
      | _ \<Rightarrow> False)"

definition is_token :: "string \<Rightarrow> bool" where
  "is_token t = (if fullmatch_word t then True else is_separator t)"

text \<open>
  The candidate phrases: those of the windows \<open>tokens[i:k]\<close> that start at \<open>i\<close> and end
  behind \<open>j\<close>, and those of all windows of the token list.
\<close>

definition windows_beyond :: "string list \<Rightarrow> nat \<Rightarrow> nat \<Rightarrow> string list" where
  "windows_beyond tokens i j = map (phrase tokens i) [Suc j ..< Suc (length tokens)]"

definition all_windows :: "string list \<Rightarrow> string list" where
  "all_windows tokens = concat (map (\<lambda>i. windows_beyond tokens i i) [0 ..< length tokens])"

text \<open>The grammar rejects a phrase, and the grammar raises nothing but \<open>ValueError\<close>.\<close>

definition rejects :: "grammar \<Rightarrow> string \<Rightarrow> bool" where
  "rejects w2n p = (w2n p = Inl ValueError)"


text \<open>
  For the second pass of the normalizer over its own output: a key of
  \<open>american_number_system\<close> is made of lower-case letters and is accepted by the grammar
  on its own; a canonical digit string is \<open>0\<close> or starts with another digit; a settled
  unit is a separator, a canonical digit string, or a word that the grammar rejects; a
  quiet unit contributes no word of the number system to a phrase.
\<close>

definition lower_letters :: "string \<Rightarrow> bool" where
  "lower_letters w = (w \<noteq> [] \<and> list_all (\<lambda>c. in_range 97 122 (cp c)) w)"

definition accepted :: "string \<Rightarrow> bool" where
  "accepted w = (case word_to_num w of Inl e \<Rightarrow> False | Inr n \<Rightarrow> True)"

definition canonical :: "string \<Rightarrow> bool" where
  "canonical u = (u \<noteq> [] \<and> list_all is_digit u \<and> (if u = ''0'' then True else hd u \<noteq> CHR ''0''))"

definition settled :: "string \<Rightarrow> bool" where
  "settled u =
     (if is_separator u then True
      else if canonical u then True
      else fullmatch_word u \<and> rejects word_to_num (lower u))"

definition quiet :: "string \<Rightarrow> bool" where
  "quiet u = (filter in_number_system (split (lower (replace_hyphens (lower u)))) = [])"

text \<open>The grammar returns no float for a phrase.\<close>

definition no_float :: "grammar \<Rightarrow> string \<Rightarrow> bool" where
  "no_float w2n p = (case w2n p of Inr (PyFloat f) \<Rightarrow> False | Inr (PyInt n) \<Rightarrow> True | Inl e \<Rightarrow> True)"

text \<open>The number that \<open>int\<close> reads from a string of decimal digits.\<close>

definition text_value :: "string \<Rightarrow> int" where
  "text_value t = digits_value (map digit_value t)"

text \<open>
  The highlighter as the specification words it: the text falls into maximal runs of word
  characters and single other characters; a run that consists of decimal digits only is
  replaced by \<open>repl\<close> of it (wrapped in the markers, for \<open>hl\<close>) and everything else is
  copied.
\<close>

function mark_digit_tokens :: "(string \<Rightarrow> string) \<Rightarrow> string \<Rightarrow> string" where
  "mark_digit_tokens repl [] = []"
| "mark_digit_tokens repl (c # cs) =
     (if is_word c then
        (if list_all is_digit (c # takeWhile is_word cs)
         then repl (c # takeWhile is_word cs) else c # takeWhile is_word cs)
        @ mark_digit_tokens repl (dropWhile is_word cs)
      else c # mark_digit_tokens repl cs)"
  by pat_completeness auto
termination
  by (relation "measure (\<lambda>(repl, s). length s)") (auto simp: length_dropWhile_le less_Suc_eq_le)

text \<open>
  Removing every occurrence of a marker \<open>m\<close>, as \<open>s.replace(m, '')\<close> does: from left to
  right, without overlaps.
\<close>

function remove_all :: "string \<Rightarrow> string \<Rightarrow> string" where
  "remove_all m [] = []"
| "remove_all m (c # cs) =
     (if m \<noteq> [] \<and> prefix m (c # cs) then remove_all m (drop (length m) (c # cs))
      else c # remove_all m cs)"
  by pat_completeness auto
termination
  by (relation "measure (\<lambda>(m, s). length s)") auto

definition strip_markers :: "string \<Rightarrow> string" where
  "strip_markers s = remove_all Style_RESET_ALL (remove_all Fore_YELLOW s)"

section \<open>The tokenizer\<close>

lemma space_not_word: "is_space c \<Longrightarrow> \<not> is_word c"
  by (auto simp: is_space_def is_word_def in_range_def Let_def)

lemma digit_is_word: "is_digit c \<Longrightarrow> is_word c"
  by (auto simp: is_digit_def is_word_def in_range_def Let_def)

lemma tokenize_word_run:
  assumes "w \<noteq> []" and "list_all is_word w" and "\<not> starts_word rest"
  shows "tokenize (w @ rest) = w # tokenize rest"
proof -
  from assms(1) obtain c w' where w: "w = c # w'" by (cases w) auto
  from assms(3) have tw: "takeWhile is_word rest = []" and dw: "dropWhile is_word rest = rest"
    by (cases rest; simp add: starts_word_def)+
  from assms(2) w have all: "\<forall>x\<in>set w'. is_word x" and c: "is_word c"
    by (simp_all add: list_all_iff)
  show ?thesis using all c tw dw by (simp add: w)
qed

lemma concat_tokenize: "concat (tokenize s) = filter (\<lambda>c. \<not> is_space c) s"
proof (induction s rule: tokenize.induct)
  case 1
  show ?case by simp
next
  case (2 c cs)
  show ?case
  proof (cases "is_word c")
    case True
    have "filter (\<lambda>c. \<not> is_space c) (takeWhile is_word cs) = takeWhile is_word cs"
      by (rule filter_True) (auto dest: set_takeWhileD space_not_word)
    then have "filter (\<lambda>c. \<not> is_space c) cs
        = takeWhile is_word cs @ filter (\<lambda>c. \<not> is_space c) (dropWhile is_word cs)"
      by (metis filter_append takeWhile_dropWhile_id)
    with True 2 show ?thesis by (auto dest: space_not_word)
  next
    case False
    with 2 show ?thesis by simp
  qed
qed

lemma tokens_shape: "list_all is_token (tokenize s)"
proof (induction s rule: tokenize.induct)
  case 1
  show ?case by simp
next
  case (2 c cs)
  show ?case
  proof (cases "is_word c")
    case True
    have "is_token (c # takeWhile is_word cs)"
      using True by (auto simp: is_token_def fullmatch_word_def list_all_iff dest: set_takeWhileD)
    with True 2 show ?thesis by simp
  next
    case False
    show ?thesis
    proof (cases "is_space c")
      case True
      with False 2 show ?thesis by simp
    next
      case nsp: False
      have "is_token [c]"
        using False nsp by (simp add: is_token_def fullmatch_word_def is_separator_def)
      with False nsp 2 show ?thesis by simp
    qed
  qed
qed

text \<open>
  C8. Scanning from left to right, the tokenizer turns every maximal run of word characters
  into one word-token (a non-empty run \<open>w\<close> of word characters that is not followed by a
  word character is the next token), every other character that is not whitespace into one
  separator-token, and drops whitespace. The tokens keep the order of the text: joined
  together they are the text without its whitespace. Every token is a word-token or a
  separator-token, and the empty text has no tokens.
\<close>

theorem C8_tokenize:
  "tokenize [] = []
   \<and> (is_space c \<longrightarrow> tokenize (c # cs) = tokenize cs)
   \<and> (\<not> is_word c \<and> \<not> is_space c \<longrightarrow> tokenize (c # cs) = [c] # tokenize cs)
   \<and> (w \<noteq> [] \<and> list_all is_word w \<and> \<not> starts_word rest
        \<longrightarrow> tokenize (w @ rest) = w # tokenize rest)
   \<and> concat (tokenize s) = filter (\<lambda>c. \<not> is_space c) s
   \<and> list_all is_token (tokenize s)"
  using tokenize_word_run [of w rest] concat_tokenize [of s] tokens_shape [of s]
  by (simp add: space_not_word)

theorem C8_tokenize_witness:
  "is_space CHR '' '' \<and> \<not> is_word CHR '','' \<and> \<not> is_space CHR '',''
   \<and> ''ab'' \<noteq> [] \<and> list_all is_word ''ab'' \<and> \<not> starts_word '', c''
   \<and> tokenize ('' '' @ ''c'') = tokenize ''c''
   \<and> tokenize ('','' @ '' c'') = '','' # tokenize '' c''
   \<and> tokenize (''ab'' @ '', c'') = ''ab'' # tokenize '', c''
   \<and> concat (tokenize ''ab, c'') = ''ab,c''
   \<and> list_all is_token (tokenize ''ab, c'')"
proof -
  have h: "is_space CHR '' ''" "\<not> is_word CHR '',''" "\<not> is_space CHR '',''"
    "list_all is_word ''ab''" "\<not> starts_word '', c''"
    by (simp_all add: is_space_def is_word_def in_range_def cp_def starts_word_def)
  have f: "filter (\<lambda>c. \<not> is_space c) ''ab, c'' = ''ab,c''"
    by (simp add: is_space_def in_range_def cp_def)
  from h f show ?thesis
    using C8_tokenize [of "CHR '' ''" "''c''" "''ab''" "'', c''" "''ab, c''"]
      C8_tokenize [of "CHR '',''" "'' c''" "''ab''" "'', c''" "''ab, c''"]
    by simp
qed

section \<open>Unsupported languages\<close>

text \<open>
  C4. For every text and every language tag other than \<open>en\<close> the normalizer returns the
  text unchanged, whatever the grammar does; in particular for \<open>ru\<close>.
\<close>

theorem C4_other_language_unchanged:
  "language \<noteq> ''en'' \<Longrightarrow> replace_number_words w2n x language = Inr x"
  by (simp add: replace_number_words_def)

theorem C4_other_language_unchanged_witness:
  "''ru'' \<noteq> ''en''
   \<and> replace_number_words (\<lambda>p. Inl IndexError) ''twenty  three.'' ''ru'' = Inr ''twenty  three.''"
  using C4_other_language_unchanged [of "''ru''" "\<lambda>p. Inl IndexError" "''twenty  three.''"]
  by simp

section \<open>The highlighter\<close>

lemma takeWhile_digit_word_prefix:
  "takeWhile is_word s = takeWhile is_digit s @ takeWhile is_word (dropWhile is_digit s)"
  by (induction s) (auto simp: digit_is_word)

lemma dropWhile_digit_word:
  "dropWhile is_word s = dropWhile is_word (dropWhile is_digit s)"
  by (induction s) (auto simp: digit_is_word)

text \<open>No boundary inside a run of digits.\<close>

lemma starts_word_drop: "starts_word (drop k s) = (k < length s \<and> is_word (s ! k))"
proof (cases "k < length s")
  case True
  then have "drop k s = s ! k # drop (Suc k) s" by (simp add: Cons_nth_drop_Suc)
  with True show ?thesis by (simp add: starts_word_def)
next
  case False
  then show ?thesis by (simp add: starts_word_def)
qed

lemma nth_takeWhile_digit:
  "j < length (takeWhile is_digit s) \<Longrightarrow> is_digit (s ! j)"
  by (metis nth_mem set_takeWhileD takeWhile_nth)

lemma digits_then_boundary_None:
  assumes "k \<le> length (takeWhile is_digit s)"
    and "starts_word (drop (length (takeWhile is_digit s)) s)"
  shows "digits_then_boundary s k = None"
  using assms(1)
proof (induction k)
  case 0
  show ?case by simp
next
  case (Suc k)
  have dk: "is_digit (s ! k)" using Suc.prems by (simp add: nth_takeWhile_digit)
  have "starts_word (drop (Suc k) s)"
  proof (cases "Suc k = length (takeWhile is_digit s)")
    case True
    with assms(2) show ?thesis by simp
  next
    case False
    with Suc.prems have lt: "Suc k < length (takeWhile is_digit s)" by simp
    then have "is_digit (s ! Suc k)" by (rule nth_takeWhile_digit)
    moreover have "Suc k < length s" using lt length_takeWhile_le [of is_digit s] by (meson less_le_trans)
    ultimately show ?thesis
      by (simp add: starts_word_drop digit_is_word)
  qed
  with dk Suc show ?case by (simp add: boundary_def word_before_def digit_is_word)
qed

lemma digits_then_boundary_Some:
  assumes "0 < length (takeWhile is_digit s)"
    and "\<not> starts_word (drop (length (takeWhile is_digit s)) s)"
  shows "digits_then_boundary s (length (takeWhile is_digit s)) = Some (length (takeWhile is_digit s))"
proof -
  obtain k where k: "length (takeWhile is_digit s) = Suc k" using assms(1) by (cases "length (takeWhile is_digit s)") auto
  then have "is_digit (s ! k)" by (simp add: nth_takeWhile_digit)
  with assms(2) k show ?thesis by (simp add: boundary_def word_before_def digit_is_word)
qed


lemma not_starts_word_takeWhile:
  "\<not> starts_word s \<Longrightarrow> takeWhile is_word s = [] \<and> dropWhile is_word s = s"
  by (cases s) (simp_all add: starts_word_def)

lemma match_at_Nil: "match_at p [] = None"
  by (simp add: match_at_def)

lemma match_at_no_digit: "\<not> is_digit c \<Longrightarrow> match_at p (c # cs) = None"
  by (simp add: match_at_def)

lemma match_at_no_boundary: "word_before p = starts_word s \<Longrightarrow> match_at p s = None"
  by (simp add: match_at_def boundary_def)

lemma re_sub_copy: "match_at p (c # cs) = None \<Longrightarrow> re_sub repl p (c # cs) = c # re_sub repl (Some c) cs"
  by (subst re_sub.simps) simp

lemma re_sub_Nil: "re_sub repl p [] = []"
  by (subst re_sub.simps) (simp add: match_at_Nil)

lemma re_sub_match:
  "match_at p s = Some n \<Longrightarrow> re_sub repl p s = repl (take n s) @ re_sub repl (Some (s ! (n - 1))) (drop n s)"
  by (subst re_sub.simps) simp

lemma re_sub_mark:
  "re_sub repl p s =
     (if word_before p then takeWhile is_word s @ mark_digit_tokens repl (dropWhile is_word s)
      else mark_digit_tokens repl s)"
proof (induction "length s" arbitrary: s p rule: less_induct)
  case less
  show ?case
  proof (cases s)
    case Nil
    then show ?thesis by (simp add: re_sub_Nil)
  next
    case (Cons c cs)
    have IHcs: "re_sub repl (Some c) cs =
       (if is_word c then takeWhile is_word cs @ mark_digit_tokens repl (dropWhile is_word cs)
        else mark_digit_tokens repl cs)"
      using less [of cs "Some c"] Cons by (simp add: word_before_def)
    show ?thesis
    proof (cases "is_digit c")
      case False
      then have "re_sub repl p s = c # re_sub repl (Some c) cs"
        using Cons by (simp add: re_sub_copy match_at_no_digit)
      with IHcs False Cons show ?thesis by simp
    next
      case True
      then have wc: "is_word c" by (rule digit_is_word)
      show ?thesis
      proof (cases "word_before p")
        case wb: True
        then have "match_at p s = None"
          using wc Cons by (simp add: match_at_no_boundary starts_word_def)
        then have "re_sub repl p s = c # re_sub repl (Some c) cs"
          using Cons by (simp add: re_sub_copy)
        with IHcs wc wb Cons show ?thesis by simp
      next
        case nwb: False
        define k where "k = length (takeWhile is_digit s)"
        have kpos: "0 < k" using True Cons by (simp add: k_def)
        have tk: "take k s = takeWhile is_digit s" unfolding k_def by (rule takeWhile_eq_take [symmetric])
        have dk: "drop k s = dropWhile is_digit s" unfolding k_def by (rule dropWhile_eq_drop [symmetric])
        have bnd: "boundary p s" using nwb wc Cons by (simp add: boundary_def starts_word_def)
        have tws: "takeWhile is_word s = c # takeWhile is_word cs" using wc Cons by simp
        show ?thesis
        proof (cases "starts_word (drop k s)")
          case sw: True
          then have "match_at p s = None"
            using digits_then_boundary_None [of k s] bnd by (simp add: match_at_def k_def)
          then have eq: "re_sub repl p s = c # re_sub repl (Some c) cs"
            using Cons by (simp add: re_sub_copy)
          from sw obtain d ds where dd: "dropWhile is_digit s = d # ds" and wd: "is_word d"
            by (auto simp: dk starts_word_def split: list.splits)
          have nd: "\<not> is_digit d" using dd by (metis hd_dropWhile list.sel(1) list.simps(3))
          have "d \<in> set (takeWhile is_word s)"
            using takeWhile_digit_word_prefix [of s] dd wd by simp
          with nd have "\<not> list_all is_digit (takeWhile is_word s)"
            by (auto simp: list_all_iff)
          with eq IHcs wc nwb Cons tws True show ?thesis by simp
        next
          case nsw: False
          then have m: "match_at p s = Some k"
            using digits_then_boundary_Some [of s] bnd kpos by (simp add: match_at_def k_def)
          have lt: "length (drop k s) < length s" using kpos Cons by simp
          have dig: "is_digit (s ! (k - 1))"
            using kpos by (simp add: k_def nth_takeWhile_digit)
          have "re_sub repl (Some (s ! (k - 1))) (drop k s) = mark_digit_tokens repl (drop k s)"
            using less [OF lt, of "Some (s ! (k - 1))"] dig nsw
            by (simp add: word_before_def digit_is_word not_starts_word_takeWhile)
          with m have eq: "re_sub repl p s = repl (take k s) @ mark_digit_tokens repl (drop k s)"
            by (simp add: re_sub_match)
          have tw: "takeWhile is_word s = take k s"
            using takeWhile_digit_word_prefix [of s] nsw
            by (simp add: tk dk [symmetric] not_starts_word_takeWhile)
          have dw: "dropWhile is_word s = drop k s"
            using dropWhile_digit_word [of s] nsw
            by (simp add: dk [symmetric] not_starts_word_takeWhile)
          have alld: "list_all is_digit (take k s)"
            by (auto simp: tk list_all_iff dest: set_takeWhileD)
          have "mark_digit_tokens repl s = repl (take k s) @ mark_digit_tokens repl (drop k s)"
            using wc Cons tw dw alld tws by simp
          with eq nwb show ?thesis by simp
        qed
      qed
    qed
  qed
qed


text \<open>
  C7. The highlighter wraps in the markers exactly the maximal runs of word characters
  that consist of decimal digits only, and copies every other character: it is the
  function \<open>mark_digit_tokens hl\<close>. So \<open>23\<close> in \<open>I have 23 apples\<close> is marked, and the
  digits of \<open>abc123\<close> and \<open>room404\<close>, which are part of a longer alphanumeric token, are
  not.
\<close>

theorem C7_highlight_digit_tokens:
  "highlight_numbers text = mark_digit_tokens hl text
   \<and> highlight_numbers ''I have 23 apples''
       = ''I have '' @ Fore_YELLOW @ ''23'' @ Style_RESET_ALL @ '' apples''
   \<and> highlight_numbers ''abc123'' = ''abc123''
   \<and> highlight_numbers ''room404'' = ''room404''"
proof -
  have a: "highlight_numbers t = mark_digit_tokens hl t" for t
    by (simp add: highlight_numbers_def re_sub_mark word_before_def)
  have w: "is_word CHR ''I''" "is_word CHR ''h''" "is_word CHR ''a''" "is_word CHR ''v''"
    "is_word CHR ''e''" "is_word CHR ''2''" "is_word CHR ''3''" "is_word CHR ''p''"
    "is_word CHR ''l''" "is_word CHR ''s''" "is_word CHR ''b''" "is_word CHR ''c''"
    "is_word CHR ''1''" "is_word CHR ''r''" "is_word CHR ''o''" "is_word CHR ''m''"
    "is_word CHR ''4''" "is_word CHR ''0''" "\<not> is_word CHR '' ''"
    by (simp_all add: is_word_def in_range_def cp_def)
  have d: "is_digit CHR ''2''" "is_digit CHR ''3''" "\<not> is_digit CHR ''I''"
    "\<not> is_digit CHR ''h''" "\<not> is_digit CHR ''a''" "\<not> is_digit CHR ''r''"
    by (simp_all add: is_digit_def in_range_def cp_def)
  have b: "mark_digit_tokens hl ''I have 23 apples''
       = ''I have '' @ Fore_YELLOW @ ''23'' @ Style_RESET_ALL @ '' apples''"
    by (simp add: w d hl_def)
  have c: "mark_digit_tokens hl ''abc123'' = ''abc123''"
    "mark_digit_tokens hl ''room404'' = ''room404''"
    by (simp_all add: w d)
  from a b c show ?thesis by simp
qed

section \<open>Removing the markers again\<close>

lemma word_not_ESC: "is_word c \<Longrightarrow> c \<noteq> CHR 0x1B"
  by (auto simp: is_word_def in_range_def cp_def Let_def)

lemma remove_all_skip:
  "hd m \<noteq> c \<Longrightarrow> remove_all m (c # z) = c # remove_all m z"
  by (cases m) auto

lemma remove_all_skip_run:
  "\<forall>c\<in>set w. hd m \<noteq> c \<Longrightarrow> remove_all m (w @ z) = w @ remove_all m z"
  by (induction w) (auto simp: remove_all_skip simp del: remove_all.simps)

lemma remove_all_self: "m \<noteq> [] \<Longrightarrow> remove_all m (m @ z) = remove_all m z"
  by (cases m) auto

lemma remove_all_Y_R: "remove_all Fore_YELLOW (Style_RESET_ALL @ z) = Style_RESET_ALL @ remove_all Fore_YELLOW z"
  by (simp add: Fore_YELLOW_def Style_RESET_ALL_def)

lemma prefix_marker:
  assumes "prefix u (x @ z)" and "x = [] \<or> hd x = e" and "e \<notin> set u"
  shows "u = [] \<or> (x = [] \<and> prefix u z)"
proof (cases x)
  case Nil
  with assms(1) show ?thesis by simp
next
  case (Cons y ys)
  with assms(2) have "y = e" by simp
  with assms(1,3) Cons show ?thesis by (cases u) auto
qed

text \<open>A prefix of the output without the first character of the markers is a prefix of the input.\<close>

lemma mark_prefix:
  assumes repl: "\<And>n. repl n = a @ n @ b"
    and a: "a = [] \<or> hd a = e" and b: "b = [] \<or> hd b = e"
  shows "e \<notin> set u \<Longrightarrow> prefix u (mark_digit_tokens repl s) \<Longrightarrow> prefix u s"
proof (induction "length s" arbitrary: s u rule: less_induct)
  case less
  show ?case
  proof (cases s)
    case Nil
    with less.prems show ?thesis by simp
  next
    case (Cons c cs)
    show ?thesis
    proof (cases "is_word c")
      case False
      with less.prems Cons have p: "prefix u (c # mark_digit_tokens repl cs)" by simp
      show ?thesis
      proof (cases u)
        case Nil
        then show ?thesis by simp
      next
        case (Cons d u')
        with p less.prems(1) have "d = c" "prefix u' (mark_digit_tokens repl cs)" "e \<notin> set u'"
          by auto
        with less.hyps [of cs u'] \<open>s = c # cs\<close> Cons show ?thesis by simp
      qed
    next
      case True
      define w where "w = c # takeWhile is_word cs"
      define r where "r = dropWhile is_word cs"
      have s: "s = w @ r" by (simp add: w_def r_def Cons)
      have lt: "length r < length s" by (simp add: s w_def)
      have out: "mark_digit_tokens repl s
          = (if list_all is_digit w then repl w else w) @ mark_digit_tokens repl r"
        using True Cons by (simp add: w_def r_def)
      have tail: "prefix v (mark_digit_tokens repl r) \<Longrightarrow> e \<notin> set v \<Longrightarrow> prefix (w @ v) s" for v
        using less.hyps [OF lt, of v] by (simp add: s)
      have plain: "prefix u (w @ mark_digit_tokens repl r) \<Longrightarrow> prefix u s"
      proof -
        assume "prefix u (w @ mark_digit_tokens repl r)"
        then consider "prefix u w" | us where "u = w @ us" "prefix us (mark_digit_tokens repl r)"
          by (auto simp: prefix_append)
        then show ?thesis
        proof cases
          case 1
          then show ?thesis by (simp add: s)
        next
          case 2
          with less.prems(1) tail [of us] show ?thesis by simp
        qed
      qed
      show ?thesis
      proof (cases "list_all is_digit w")
        case False
        with less.prems out have "prefix u (w @ mark_digit_tokens repl r)"
          by simp
        then show ?thesis by (rule plain)
      next
        case alld: True
        with less.prems out have "prefix u (a @ w @ b @ mark_digit_tokens repl r)"
          by (simp add: repl)
        from prefix_marker [OF this a less.prems(1)] show ?thesis
        proof
          assume "u = []"
          then show ?thesis by simp
        next
          assume "a = [] \<and> prefix u (w @ b @ mark_digit_tokens repl r)"
          then consider "prefix u w" | us where "u = w @ us" "prefix us (b @ mark_digit_tokens repl r)"
            by (auto simp: prefix_append)
          then show ?thesis
          proof cases
            case 1
            then show ?thesis by (simp add: s)
          next
            case 2
            with less.prems(1) have "e \<notin> set us" by simp
            from prefix_marker [OF 2(2) b this] show ?thesis
            proof
              assume "us = []"
              with 2 show ?thesis by (simp add: s)
            next
              assume "b = [] \<and> prefix us (mark_digit_tokens repl r)"
              with tail [of us] \<open>e \<notin> set us\<close> 2 show ?thesis by simp
            qed
          qed
        qed
      qed
    qed
  qed
qed


lemma sublist_tail: "\<not> sublist m (w @ r) \<Longrightarrow> \<not> sublist m r"
  unfolding sublist_def by (metis append_assoc)

lemma remove_all_mark:
  assumes m: "m = e # m'" and e: "e \<notin> set m'" "\<And>c. is_word c \<Longrightarrow> c \<noteq> e"
    and repl: "\<And>n. repl n = a @ n @ b" and repl': "\<And>n. repl' n = a' @ n @ b'"
    and a: "a = [] \<or> hd a = e" and b: "b = [] \<or> hd b = e"
    and ra: "\<And>z. remove_all m (a @ z) = a' @ remove_all m z"
    and rb: "\<And>z. remove_all m (b @ z) = b' @ remove_all m z"
  shows "\<not> sublist m s \<Longrightarrow> remove_all m (mark_digit_tokens repl s) = mark_digit_tokens repl' s"
proof (induction "length s" arbitrary: s rule: less_induct)
  case less
  show ?case
  proof (cases s)
    case Nil
    then show ?thesis by simp
  next
    case (Cons c cs)
    have ncs: "\<not> sublist m cs" using less.prems Cons sublist_tail [of m "[c]" cs] by simp
    have IHcs: "remove_all m (mark_digit_tokens repl cs) = mark_digit_tokens repl' cs"
      using less.hyps [of cs] ncs Cons by simp
    show ?thesis
    proof (cases "is_word c")
      case False
      have "\<not> prefix m (c # mark_digit_tokens repl cs)"
      proof
        assume p: "prefix m (c # mark_digit_tokens repl cs)"
        then have "c = e" "prefix m' (mark_digit_tokens repl cs)" by (simp_all add: m)
        with mark_prefix [OF repl a b e(1)] have "prefix m' cs" by simp
        with \<open>c = e\<close> have "prefix m s" by (simp add: m Cons)
        with less.prems show False by (simp add: prefix_imp_sublist)
      qed
      with False IHcs Cons show ?thesis by simp
    next
      case True
      define w where "w = c # takeWhile is_word cs"
      define r where "r = dropWhile is_word cs"
      have s: "s = w @ r" by (simp add: w_def r_def Cons)
      have lt: "length r < length s" by (simp add: s w_def)
      have out: "mark_digit_tokens f s
          = (if list_all is_digit w then f w else w) @ mark_digit_tokens f r" for f
        using True Cons by (simp add: w_def r_def)
      have nr: "\<not> sublist m r" using less.prems sublist_tail [of m w r] by (simp add: s)
      have IHr: "remove_all m (mark_digit_tokens repl r) = mark_digit_tokens repl' r"
        using less.hyps [OF lt nr] .
      have "\<forall>c\<in>set w. hd m \<noteq> c"
        using True e(2) by (auto simp: w_def m dest: set_takeWhileD)
      then have skip: "remove_all m (w @ z) = w @ remove_all m z" for z
        by (rule remove_all_skip_run)
      show ?thesis
        by (simp add: out [of repl] out [of repl'] repl repl' ra rb skip IHr del: remove_all.simps)
    qed
  qed
qed

lemma mark_id: "mark_digit_tokens (\<lambda>n. [] @ n @ []) s = s"
  by (induction "\<lambda>n::string. [] @ n @ []" s rule: mark_digit_tokens.induct) auto

text \<open>
  C10, as stated, fails for a text that already contains the markers: the text
  \<open>ESC[33m7ESC[0m\<close> has no digit run between word boundaries (\<open>33m7\<close> and \<open>0m\<close> are
  longer tokens), so it is returned as it is, and removing the markers from it gives
  \<open>7\<close>, not the text.
\<close>

theorem C10_marked_input_counterexample:
  "highlight_numbers (Fore_YELLOW @ ''7'' @ Style_RESET_ALL) = Fore_YELLOW @ ''7'' @ Style_RESET_ALL
   \<and> strip_markers (highlight_numbers (Fore_YELLOW @ ''7'' @ Style_RESET_ALL)) = ''7''
   \<and> ''7'' \<noteq> Fore_YELLOW @ ''7'' @ Style_RESET_ALL"
  by code_simp

text \<open>
  C10, amended. For every text that contains neither marker, removing every occurrence
  of the opening marker and then of the closing marker from the highlighted text gives
  the text back: the highlighter only inserts markers.
\<close>

theorem C10_strip_markers_roundtrip:
  assumes "\<not> sublist Fore_YELLOW t" and "\<not> sublist Style_RESET_ALL t"
  shows "strip_markers (highlight_numbers t) = t"
proof -
  have w: "is_word c \<Longrightarrow> c \<noteq> CHR 0x1B" for c by (rule word_not_ESC)
  have 1: "remove_all Fore_YELLOW (mark_digit_tokens hl t)
      = mark_digit_tokens (\<lambda>n. [] @ n @ Style_RESET_ALL) t"
    by (rule remove_all_mark [where e = "CHR 0x1B" and m' = "''[33m''" and a = Fore_YELLOW
          and b = Style_RESET_ALL and a' = "[]" and b' = Style_RESET_ALL])
       (simp_all add: assms w hl_def Fore_YELLOW_def [symmetric] remove_all_self remove_all_Y_R
          del: remove_all.simps, simp_all add: Fore_YELLOW_def Style_RESET_ALL_def)
  have 2: "remove_all Style_RESET_ALL (mark_digit_tokens (\<lambda>n. [] @ n @ Style_RESET_ALL) t)
      = mark_digit_tokens (\<lambda>n. [] @ n @ []) t"
    by (rule remove_all_mark [where e = "CHR 0x1B" and m' = "''[0m''" and a = "[]"
          and b = Style_RESET_ALL and a' = "[]" and b' = "[]"])
       (simp_all add: assms w remove_all_self del: remove_all.simps,
        simp_all add: Style_RESET_ALL_def)
  have h: "highlight_numbers t = mark_digit_tokens hl t"
    by (simp add: highlight_numbers_def re_sub_mark word_before_def)
  show ?thesis unfolding strip_markers_def h 1 2 by (rule mark_id)
qed

theorem C10_strip_markers_roundtrip_witness:
  "\<not> sublist Fore_YELLOW ''I have 23 apples'' \<and> \<not> sublist Style_RESET_ALL ''I have 23 apples''
   \<and> strip_markers (highlight_numbers ''I have 23 apples'') = ''I have 23 apples''"
proof -
  have a: "\<not> sublist Fore_YELLOW ''I have 23 apples''"
    by (simp add: Fore_YELLOW_def sublist_Cons_right)
  have b: "\<not> sublist Style_RESET_ALL ''I have 23 apples''"
    by (simp add: Style_RESET_ALL_def sublist_Cons_right)
  from a b C10_strip_markers_roundtrip [OF a b] show ?thesis by simp
qed

section \<open>The loops of the normalizer\<close>


lemma all_windows_iff:
  "list_all P (all_windows tokens)
     = (\<forall>i k. i < k \<and> k \<le> length tokens \<longrightarrow> P (phrase tokens i k))"
  by (auto simp: all_windows_def windows_beyond_def list_all_iff less_Suc_eq_le Suc_le_eq
      simp del: upt_Suc)

lemma match_longest_skip:
  assumes "\<forall>k. j < k \<and> k \<le> n \<longrightarrow> w2n (phrase tokens i k) = Inl ValueError" and "i \<le> j" and "j \<le> n"
  shows "match_longest w2n tokens i n = match_longest w2n tokens i j"
  using assms
proof (induction "n - j" arbitrary: n)
  case 0
  then show ?case by simp
next
  case (Suc d)
  then have n: "j < n" "i < n" by auto
  with Suc.prems have "w2n (phrase tokens i n) = Inl ValueError" by simp
  with n have "match_longest w2n tokens i n = match_longest w2n tokens i (n - 1)"
    by (subst match_longest.simps) simp
  moreover have "match_longest w2n tokens i (n - 1) = match_longest w2n tokens i j"
  proof (rule Suc.hyps(1))
    show "d = n - 1 - j" using Suc.hyps(2) by simp
    show "\<forall>k. j < k \<and> k \<le> n - 1 \<longrightarrow> w2n (phrase tokens i k) = Inl ValueError"
      using Suc.prems(1) by (meson diff_le_self le_trans)
    show "i \<le> j" by fact
    show "j \<le> n - 1" using n by simp
  qed
  ultimately show ?case by simp
qed

lemma match_longest_found:
  assumes "i < j" and "j \<le> n" and "w2n (phrase tokens i j) = Inr num"
    and "\<forall>k. j < k \<and> k \<le> n \<longrightarrow> w2n (phrase tokens i k) = Inl ValueError"
  shows "match_longest w2n tokens i n = Inr (Some (num, j))"
proof -
  have "match_longest w2n tokens i n = match_longest w2n tokens i j"
    using assms by (intro match_longest_skip) auto
  also have "\<dots> = Inr (Some (num, j))"
    using assms(1,3) by (subst match_longest.simps) simp
  finally show ?thesis .
qed

lemma match_longest_none:
  assumes "\<forall>k. i < k \<and> k \<le> n \<longrightarrow> w2n (phrase tokens i k) = Inl ValueError" and "i \<le> n"
  shows "match_longest w2n tokens i n = Inr None"
proof -
  have "match_longest w2n tokens i n = match_longest w2n tokens i i"
    using assms by (intro match_longest_skip) auto
  also have "\<dots> = Inr None" by (subst match_longest.simps) simp
  finally show ?thesis .
qed


lemma while_tokens_done: "length tokens \<le> i \<Longrightarrow> while_tokens w2n tokens i out = Inr out"
  by (subst while_tokens.simps) simp

lemma while_tokens_match:
  assumes "i < length tokens" and "fullmatch_word (tokens ! i)"
    and "match_longest w2n tokens i (length tokens) = Inr (Some (num, j))"
  shows "while_tokens w2n tokens i out = while_tokens w2n tokens j (out @ [py_str num])"
  using assms by (subst while_tokens.simps) simp

lemma while_tokens_no_match:
  assumes "i < length tokens"
    and "\<not> fullmatch_word (tokens ! i) \<or> match_longest w2n tokens i (length tokens) = Inr None"
  shows "while_tokens w2n tokens i out = while_tokens w2n tokens (i + 1) (out @ [tokens ! i])"
  using assms by (subst while_tokens.simps) auto





section \<open>Longest match\<close>



section \<open>No match\<close>



section \<open>Reassembly\<close>

text \<open>
  C2. The reassembly puts a space behind every unit that is not a separator and nothing
  behind a separator, and strips the ends. So a separator gets a space in front of it when
  it follows a word or a number, and the unit behind a separator is attached to it: the
  units of \<open>I have 23 apples.\<close> give \<open>I have 23 apples .\<close>, and \<open>Hello, world.\<close> comes
  back as \<open>Hello ,world .\<close>. The claim says the opposite (no space in front of a
  separator, one space between any other two units).
\<close>

theorem C2_separator_spacing:
  "reassemble [''I'', ''have'', ''23'', ''apples'', ''.''] = ''I have 23 apples .''
   \<and> replace_number_words word_to_num ''I have 23 apples.'' ''en'' = Inr ''I have 23 apples .''
   \<and> replace_number_words word_to_num ''Hello, world.'' ''en'' = Inr ''Hello ,world .''"
  by code_simp

section \<open>Totality\<close>


text \<open>
  The loop catches \<open>ValueError\<close> only. The grammar of the program raises \<open>IndexError\<close>
  for a scale word without a number in front of it, and the exception leaves the
  normalizer.
\<close>

lemma thousand_one_raises:
  "word_to_num ''thousand one'' = Inl IndexError
   \<and> replace_number_words word_to_num ''thousand one'' ''en'' = Inl IndexError"
  by code_simp



section \<open>Digit tokens\<close>

lemma digit_facts:
  assumes "is_digit c"
  shows "is_py_digit c" "lower_char c = c" "c \<noteq> CHR ''-''" "\<not> is_space c"
    "digit_char (digit_value c) = c" "0 \<le> digit_value c" "digit_value c < 10"
    "(digit_value c = 0) = (c = CHR ''0'')"
proof -
  from assms have r: "48 \<le> (of_char c :: nat)" "(of_char c :: nat) \<le> 57"
    by (simp_all add: is_digit_def in_range_def cp_def)
  from r show "is_py_digit c" by (simp add: is_py_digit_def in_range_def cp_def)
  from r show "lower_char c = c" by (simp add: lower_char_def in_range_def cp_def)
  from r show "c \<noteq> CHR ''-''" by auto
  from r show "\<not> is_space c" by (simp add: is_space_def in_range_def cp_def)
  have "48 + (int (of_char c) - 48) = int (of_char c)" by simp
  then show "digit_char (digit_value c) = c"
    by (simp add: digit_char_def digit_value_def cp_def)
  from r show "0 \<le> digit_value c" "digit_value c < 10"
    by (simp_all add: digit_value_def cp_def)
  have "((of_char c :: nat) = of_char CHR ''0'') = (c = CHR ''0'')"
    by (rule of_char_eq_iff)
  then have "(of_char c = (48::nat)) = (c = CHR ''0'')" by simp
  with r show "(digit_value c = 0) = (c = CHR ''0'')"
    by (auto simp: digit_value_def cp_def)
qed


lemma digits_value_snoc: "digits_value (ds @ [d]) = 10 * digits_value ds + d"
  by (simp add: digits_value_def)

lemma dec_str_step:
  assumes "0 \<le> n" and "0 \<le> d" and "d < 10"
  shows "dec_str (10 * n + d) = (if n = 0 then [digit_char d] else dec_str n @ [digit_char d])"
proof -
  from assms have "(10 * n + d) div 10 = n" "(10 * n + d) mod 10 = d" by auto
  with assms show ?thesis by (subst dec_str.simps) auto
qed

lemma dec_str_zero: "dec_str 0 = ''0''"
  by code_simp

lemma dec_str_text_value:
  "list_all is_digit t \<Longrightarrow>
     0 \<le> text_value t
     \<and> ((text_value t = 0) = (dropWhile (\<lambda>c. c = CHR ''0'') t = []))
     \<and> (text_value t \<noteq> 0 \<longrightarrow> dec_str (text_value t) = dropWhile (\<lambda>c. c = CHR ''0'') t)"
proof (induction t rule: rev_induct)
  case Nil
  show ?case by (simp add: text_value_def digits_value_def)
next
  case (snoc c t)
  then have c: "is_digit c" and t: "list_all is_digit t" by simp_all
  note IH = snoc.IH [OF t]
  have v: "text_value (t @ [c]) = 10 * text_value t + digit_value c"
    by (simp add: text_value_def digits_value_snoc)
  note d = digit_facts [OF c]
  show ?case
  proof (cases "text_value t = 0")
    case True
    with IH have dz: "dropWhile (\<lambda>c. c = CHR ''0'') t = []" by simp
    then have all0: "\<forall>x\<in>set t. x = CHR ''0''" by (simp add: dropWhile_eq_Nil_conv)
    have dw: "dropWhile (\<lambda>c. c = CHR ''0'') (t @ [c]) = dropWhile (\<lambda>c. c = CHR ''0'') [c]"
      using all0 by (simp add: dropWhile_append2)
    have "dec_str (digit_value c) = [c]"
      using d by (subst dec_str.simps) simp
    with True v d dw show ?thesis by auto
  next
    case False
    with IH have pos: "0 < text_value t" and dn: "dropWhile (\<lambda>c. c = CHR ''0'') t \<noteq> []"
      and ds: "dec_str (text_value t) = dropWhile (\<lambda>c. c = CHR ''0'') t"
      by auto
    from dn obtain x where x: "x \<in> set t" "x \<noteq> CHR ''0''"
      by (auto simp: dropWhile_eq_Nil_conv)
    then have dw: "dropWhile (\<lambda>c. c = CHR ''0'') (t @ [c]) = dropWhile (\<lambda>c. c = CHR ''0'') t @ [c]"
      by (simp add: dropWhile_append1)
    have "dec_str (10 * text_value t + digit_value c) = dec_str (text_value t) @ [c]"
      using dec_str_step [of "text_value t" "digit_value c"] pos d by simp
    with v ds dw pos d show ?thesis by auto
  qed
qed

lemma int_str_text_value:
  assumes "list_all is_digit t"
  shows "int_str (text_value t)
     = (if dropWhile (\<lambda>c. c = CHR ''0'') t = [] then ''0'' else dropWhile (\<lambda>c. c = CHR ''0'') t)"
proof -
  note v = dec_str_text_value [OF assms]
  show ?thesis
  proof (cases "text_value t = 0")
    case True
    with v have "dropWhile (\<lambda>c. c = CHR ''0'') t = []" by blast
    with True show ?thesis by (simp add: int_str_def dec_str_zero)
  next
    case False
    with v have "dropWhile (\<lambda>c. c = CHR ''0'') t \<noteq> []"
      and "dec_str (text_value t) = dropWhile (\<lambda>c. c = CHR ''0'') t" and "0 \<le> text_value t"
      by blast+
    then show ?thesis by (auto simp: int_str_def)
  qed
qed

lemma int_str_text_value_same:
  assumes "list_all is_digit t" and "t \<noteq> []"
  shows "(int_str (text_value t) = t) = (t = ''0'' \<or> hd t \<noteq> CHR ''0'')"
proof (cases "hd t = CHR ''0''")
  case False
  with assms(2) have "dropWhile (\<lambda>c. c = CHR ''0'') t = t" by (cases t) auto
  with assms False show ?thesis by (simp add: int_str_text_value)
next
  case True
  then obtain r where t: "t = CHR ''0'' # r" using assms(2) by (cases t) auto
  have len: "length (dropWhile (\<lambda>c. c = CHR ''0'') t) < length t"
    using length_dropWhile_le [of "\<lambda>c. c = CHR ''0''" r] by (simp add: t)
  show ?thesis
  proof (cases "dropWhile (\<lambda>c. c = CHR ''0'') t = []")
    case True
    with assms True show ?thesis by (auto simp: int_str_text_value)
  next
    case False
    then have "r \<noteq> []" by (auto simp: t)
    with False len assms True show ?thesis by (auto simp: int_str_text_value t)
  qed
qed

lemma lower_digits: "list_all is_digit t \<Longrightarrow> lower t = t"
  unfolding lower_def by (rule map_idI) (simp add: list_all_iff digit_facts)

lemma replace_hyphens_digits: "list_all is_digit t \<Longrightarrow> replace_hyphens t = t"
  unfolding replace_hyphens_def by (rule map_idI) (simp add: list_all_iff digit_facts)

lemma word_to_num_isdigit:
  "isdigit (lower (replace_hyphens s))
     \<Longrightarrow> word_to_num s = and_then (py_int (lower (replace_hyphens s))) (\<lambda>n. Inr (PyInt n))"
  by (simp add: word_to_num_def)

lemma word_to_num_digits:
  assumes "list_all is_digit t" and "t \<noteq> []"
  shows "word_to_num t = Inr (PyInt (text_value t))"
proof -
  have "isdigit t" using assms by (auto simp: isdigit_def list_all_iff digit_facts)
  moreover have "py_int t = Inr (text_value t)"
    using assms by (simp add: py_int_def text_value_def)
  ultimately show ?thesis
    using assms word_to_num_isdigit [of t]
    by (simp only: lower_digits replace_hyphens_digits and_then_def sum.case)
qed


lemma word_not_space: "is_word c \<Longrightarrow> \<not> is_space c"
  using space_not_word by blast

lemma is_space_blank: "is_space CHR '' ''"
  by (simp add: is_space_def in_range_def cp_def)


lemma fullmatch_nonword_word: "list_all is_word s \<Longrightarrow> \<not> fullmatch_nonword s"
  by (cases s rule: fullmatch_nonword.cases) simp_all



lemma phrase_single: "i < length tokens \<Longrightarrow> phrase tokens i (Suc i) = lower (tokens ! i)"
proof -
  assume "i < length tokens"
  then have "drop i tokens = tokens ! i # drop (Suc i) tokens" by (simp add: Cons_nth_drop_Suc)
  then show ?thesis by (simp add: phrase_def slice_def)
qed

lemma digits_are_words: "list_all is_digit t \<Longrightarrow> list_all is_word t"
  by (simp add: list_all_iff digit_is_word)






section \<open>Idempotence\<close>

text \<open>
  C5, as stated, fails: for a phrase with a decimal part the grammar returns a float;
  \<open>two point three\<close> becomes \<open>2.3\<close>, and \<open>2.3\<close> is three tokens that come back as
  \<open>2 .3\<close>.
\<close>

theorem C5_decimal_counterexample:
  "replace_number_words word_to_num ''two point three'' ''en'' = Inr ''2.3''
   \<and> replace_number_words word_to_num ''2.3'' ''en'' = Inr ''2 .3''
   \<and> ''2 .3'' \<noteq> ''2.3''"
  by code_simp

subsection \<open>Splitting at whitespace\<close>

lemma split_Nil: "split [] = []"
  by (subst split.simps) simp

lemma split_space: "is_space x \<Longrightarrow> split (x # s) = split s"
  by (subst split.simps, subst (2) split.simps) simp

lemma split_nonspace:
  "\<not> is_space x \<Longrightarrow>
     split (x # s) = (x # takeWhile (\<lambda>c. \<not> is_space c) s) # split (dropWhile (\<lambda>c. \<not> is_space c) s)"
  by (subst split.simps) simp

lemma split_spaces: "list_all is_space s \<Longrightarrow> split s = []"
  by (induction s) (simp_all add: split_Nil split_space)

lemma split_append_space:
  "is_space c \<Longrightarrow> split (a @ c # b) = split a @ split b"
proof (induction "length a" arbitrary: a rule: less_induct)
  case less
  show ?case
  proof (cases a)
    case Nil
    with less.prems show ?thesis by (simp add: split_Nil split_space)
  next
    case (Cons x a')
    show ?thesis
    proof (cases "is_space x")
      case True
      with less Cons show ?thesis by (simp add: split_space)
    next
      case False
      show ?thesis
      proof (cases "\<forall>y\<in>set a'. \<not> is_space y")
        case True
        then have tk: "takeWhile (\<lambda>c. \<not> is_space c) (a' @ c # b) = a'"
          and dk: "dropWhile (\<lambda>c. \<not> is_space c) (a' @ c # b) = c # b"
          and tk': "takeWhile (\<lambda>c. \<not> is_space c) a' = a'"
          and dk': "dropWhile (\<lambda>c. \<not> is_space c) a' = []"
          using less.prems by (simp_all add: takeWhile_append2 dropWhile_append2)
        have "split (x # a' @ c # b) = (x # a') # split (c # b)"
          by (simp only: split_nonspace [OF False] tk dk)
        also have "\<dots> = (x # a') # split b"
          by (simp only: split_space [OF less.prems])
        finally have l: "split (x # a' @ c # b) = (x # a') # split b" .
        have r: "split (x # a') = [x # a']"
          by (simp only: split_nonspace [OF False] tk' dk' split_Nil)
        show ?thesis by (simp add: Cons l r)
      next
        case nall: False
        then obtain y where y: "y \<in> set a'" "is_space y" by auto
        then have t: "takeWhile (\<lambda>c. \<not> is_space c) (a' @ c # b) = takeWhile (\<lambda>c. \<not> is_space c) a'"
          and d: "dropWhile (\<lambda>c. \<not> is_space c) (a' @ c # b)
              = dropWhile (\<lambda>c. \<not> is_space c) a' @ c # b"
          by (simp_all add: takeWhile_append1 dropWhile_append1)
        have "length (dropWhile (\<lambda>c. \<not> is_space c) a') < length a"
          using length_dropWhile_le [of "\<lambda>c. \<not> is_space c" a'] Cons by simp
        then have "split (dropWhile (\<lambda>c. \<not> is_space c) a' @ c # b)
            = split (dropWhile (\<lambda>c. \<not> is_space c) a') @ split b"
          using less.hyps less.prems by blast
        with False Cons t d show ?thesis by (simp add: split_nonspace)
      qed
    qed
  qed
qed

lemma split_join_space: "split (join_space vs) = concat (map split vs)"
proof (induction vs rule: join_space.induct)
  case 1
  show ?case by (simp add: split_Nil)
next
  case (2 t)
  show ?case by simp
next
  case (3 t u ts)
  have "is_space CHR '' ''" by (simp add: is_space_def in_range_def cp_def)
  with 3 show ?case by (simp add: split_append_space)
qed

lemma split_lstrip: "split (lstrip s) = split s"
  by (subst split.simps, subst (2) split.simps) (simp add: lstrip_def)

lemma split_append_spaces: "list_all is_space sp \<Longrightarrow> split (a @ sp) = split a"
proof (cases sp)
  case Nil
  then show ?thesis by simp
next
  case (Cons c r)
  assume "list_all is_space sp"
  with Cons show ?thesis by (simp add: split_append_space split_spaces)
qed

lemma rstrip_decomp: "s = rstrip s @ rev (takeWhile is_space (rev s))"
proof -
  have "rev (dropWhile is_space (rev s)) @ rev (takeWhile is_space (rev s))
      = rev (takeWhile is_space (rev s) @ dropWhile is_space (rev s))"
    by (simp only: rev_append)
  also have "\<dots> = s" by (simp only: takeWhile_dropWhile_id rev_rev_ident)
  finally show ?thesis by (simp only: rstrip_def)
qed

lemma trailing_spaces: "list_all is_space (rev (takeWhile is_space (rev s)))"
  by (auto simp: list_all_iff dest: set_takeWhileD)

lemma split_rstrip: "split (rstrip s) = split s"
  using split_append_spaces [OF trailing_spaces, of "rstrip s" s] rstrip_decomp [of s] by simp

lemma split_strip: "split (strip s) = split s"
  by (simp add: strip_def split_rstrip split_lstrip)

lemma split_word:
  assumes "w \<noteq> []" and "\<forall>c\<in>set w. \<not> is_space c"
  shows "split w = [w]"
proof -
  from assms obtain x r where w: "w = x # r" by (cases w) auto
  with assms have x: "\<not> is_space x" and tk: "takeWhile (\<lambda>c. \<not> is_space c) r = r"
    and dk: "dropWhile (\<lambda>c. \<not> is_space c) r = []"
    by simp_all
  show ?thesis by (simp only: w split_nonspace [OF x] tk dk split_Nil)
qed

subsection \<open>The keys of the number system\<close>


lemma in_number_system_key: "in_number_system w \<Longrightarrow> w \<in> set (map fst american_number_system)"
proof -
  assume "in_number_system w"
  then obtain v where "map_of american_number_system w = Some v"
    by (auto simp: in_number_system_def split: option.splits)
  then have "(w, v) \<in> set american_number_system" by (rule map_of_SomeD)
  then have "fst (w, v) \<in> fst ` set american_number_system" by (rule imageI)
  then show ?thesis by simp
qed

lemma keys_checked:
  "list_all (\<lambda>w. if lower_letters w then accepted w else False) (map fst american_number_system)"
  by code_simp

lemma key_facts:
  assumes "in_number_system w"
  shows "lower_letters w" and "accepted w"
proof -
  from keys_checked in_number_system_key [OF assms]
  have "if lower_letters w then accepted w else False"
    unfolding list_all_iff by blast
  then show "lower_letters w" and "accepted w" by (simp_all split: if_splits)
qed

subsection \<open>Lower case\<close>

lemma lower_char_nonword: "\<not> is_word c \<Longrightarrow> lower_char c = c"
  by (auto simp: lower_char_def is_word_def in_range_def Let_def)

lemma cp_char_of: "n < 256 \<Longrightarrow> cp (char_of n) = n"
  by (simp add: cp_def)

lemma lower_char_word: "is_word c \<Longrightarrow> is_word (lower_char c)"
  by (auto simp: lower_char_def is_word_def in_range_def Let_def cp_char_of)

lemma lower_char_idem: "lower_char (lower_char c) = lower_char c"
  by (auto simp: lower_char_def in_range_def Let_def cp_char_of)

lemma word_not_hyphen: "is_word c \<Longrightarrow> c \<noteq> CHR ''-''"
  by (auto simp: is_word_def in_range_def Let_def cp_def)

lemma lower_idem: "lower (lower s) = lower s"
  by (simp add: lower_def lower_char_idem)

lemma lower_words: "list_all is_word s \<Longrightarrow> list_all is_word (lower s)"
  by (simp add: lower_def list_all_iff lower_char_word)

lemma replace_hyphens_words: "list_all is_word s \<Longrightarrow> replace_hyphens s = s"
  unfolding replace_hyphens_def by (rule map_idI) (auto simp: list_all_iff word_not_hyphen)

lemma lower_join_space: "lower (join_space ws) = join_space (map lower ws)"
  by (induction ws rule: join_space.induct)
    (simp_all add: lower_def lower_char_def in_range_def cp_def)

lemma replace_hyphens_join_space:
  "replace_hyphens (join_space ws) = join_space (map replace_hyphens ws)"
  by (induction ws rule: join_space.induct) (simp_all add: replace_hyphens_def)

lemma blank_in_join_space: "2 \<le> length ws \<Longrightarrow> CHR '' '' \<in> set (join_space ws)"
  by (cases ws rule: join_space.cases) simp_all

subsection \<open>The grammar returns no negative number\<close>

lemma and_then_Inr: "(and_then r f = Inr y) = (\<exists>x. r = Inr x \<and> f x = Inr y)"
  by (cases r) (simp_all add: and_then_def)

lemma values_nonneg:
  "list_all (\<lambda>kv. case snd kv of Number n \<Rightarrow> 0 \<le> n | Text t \<Rightarrow> True) american_number_system"
  by (simp add: american_number_system_def)

lemma number_of_nonneg: "number_of w = Inr n \<Longrightarrow> 0 \<le> n"
proof -
  assume a: "number_of w = Inr n"
  then have "map_of american_number_system w = Some (Number n)"
    by (auto simp: number_of_def split: option.splits dict_value.splits)
  then have "(w, Number n) \<in> set american_number_system" by (rule map_of_SomeD)
  with values_nonneg show ?thesis unfolding list_all_iff by fastforce
qed

lemma numbers_of_nonneg: "numbers_of ws = Inr ns \<Longrightarrow> \<forall>x\<in>set ns. 0 \<le> x"
  by (induction ws arbitrary: ns) (auto split: sum.splits dest: number_of_nonneg)

lemma number_formation_nonneg:
  assumes "number_formation ws = Inr n"
  shows "0 \<le> n"
proof -
  from assms obtain ns where ns: "numbers_of ws = Inr ns"
    by (auto simp: number_formation_def split: sum.splits)
  note nn = numbers_of_nonneg [OF ns]
  have nth: "k < length ns \<Longrightarrow> 0 \<le> ns ! k" for k using nn by simp
  from assms ns have n: "n = (if length ns = 4 then ns ! 0 * ns ! 1 + ns ! 2 + ns ! 3
      else if length ns = 3 then ns ! 0 * ns ! 1 + ns ! 2
      else if length ns = 2 then (if 100 \<in> set ns then ns ! 0 * ns ! 1 else ns ! 0 + ns ! 1)
      else hd ns) \<and> (length ns \<noteq> 0)"
    by (cases ns) (auto simp: number_formation_def split: if_splits)
  consider "length ns = 4" | "length ns = 3" | "length ns = 2"
    | "length ns \<noteq> 4 \<and> length ns \<noteq> 3 \<and> length ns \<noteq> 2" by blast
  then show ?thesis
  proof cases
    case 1
    then have "0 \<le> ns ! 0" "0 \<le> ns ! 1" "0 \<le> ns ! 2" "0 \<le> ns ! 3" by (simp_all add: nth)
    then have "0 \<le> ns ! 0 * ns ! 1 + ns ! 2 + ns ! 3" by (simp add: add_nonneg_nonneg)
    with n 1 show ?thesis by simp
  next
    case 2
    then have "0 \<le> ns ! 0" "0 \<le> ns ! 1" "0 \<le> ns ! 2" by (simp_all add: nth)
    then have "0 \<le> ns ! 0 * ns ! 1 + ns ! 2" by (simp add: add_nonneg_nonneg)
    with n 2 show ?thesis by simp
  next
    case 3
    then have "0 \<le> ns ! 0" "0 \<le> ns ! 1" by (simp_all add: nth)
    then have "0 \<le> ns ! 0 * ns ! 1" "0 \<le> ns ! 0 + ns ! 1" by simp_all
    with n 3 show ?thesis by simp
  next
    case 4
    with n have "n = hd ns" "ns \<noteq> []" by auto
    with nn show ?thesis by (cases ns) simp_all
  qed
qed

lemma integer_part_nonneg:
  assumes "integer_part cn b m t = Inr n"
  shows "0 \<le> n"
proof (cases "int (length cn) = 0 \<or> int (length cn) = 1")
  case True
  with assms show ?thesis
    by (auto simp: integer_part_def Let_def dest: number_of_nonneg split: if_splits)
next
  case False
  define part where "part = (\<lambda>i j. slice cn (nat i) (nat j))"
  define rest where "rest = (\<lambda>i. drop (nat i) cn)"
  define len where "len = int (length cn)"
  define r1 where "r1 = (if - 1 < b then
                and_then (number_formation (part 0 b)) (\<lambda>x. Inr (x * 1000000000))
              else Inr 0)"
  define r2 where "r2 = (\<lambda>sum1. if - 1 < m then
                and_then
                  (if - 1 < b then number_formation (part (b + 1) m)
                   else number_formation (part 0 m))
                  (\<lambda>x. Inr (sum1 + x * 1000000))
              else Inr sum1)"
  define r3 where "r3 = (\<lambda>sum2. if - 1 < t then
                and_then
                  (if - 1 < m then number_formation (part (m + 1) t)
                   else if - 1 < b \<and> m = - 1 then number_formation (part (b + 1) t)
                   else number_formation (part 0 t))
                  (\<lambda>x. Inr (sum2 + x * 1000))
              else Inr sum2)"
  define r4 where "r4 = (if - 1 < t \<and> t \<noteq> len - 1 then number_formation (rest (t + 1))
              else if - 1 < m \<and> m \<noteq> len - 1 then number_formation (rest (m + 1))
              else if - 1 < b \<and> b \<noteq> len - 1 then number_formation (rest (b + 1))
              else if t = - 1 \<and> m = - 1 \<and> b = - 1 then number_formation cn
              else Inr 0)"
  have eq: "integer_part cn b m t
      = and_then r1 (\<lambda>sum1. and_then (r2 sum1) (\<lambda>sum2. and_then (r3 sum2)
          (\<lambda>sum3. and_then r4 (\<lambda>hundreds. Inr (sum3 + hundreds)))))"
    unfolding integer_part_def Let_def r1_def r2_def r3_def r4_def part_def rest_def len_def
    using False by simp
  from assms obtain s1 s2 s3 h where s1: "r1 = Inr s1" and s2: "r2 s1 = Inr s2"
    and s3: "r3 s2 = Inr s3" and h: "r4 = Inr h" and n: "n = s3 + h"
    unfolding eq and_then_Inr by auto
  have 1: "0 \<le> s1"
    using s1 by (auto simp: r1_def and_then_Inr dest: number_formation_nonneg split: if_splits)
  have 2: "0 \<le> s2"
    using s2 1 by (auto simp: r2_def and_then_Inr dest: number_formation_nonneg split: if_splits)
  have 3: "0 \<le> s3"
    using s3 2 by (auto simp: r3_def and_then_Inr dest: number_formation_nonneg split: if_splits)
  have 4: "0 \<le> h"
    using h by (auto simp: r4_def dest: number_formation_nonneg split: if_splits)
  from 3 4 n show ?thesis by simp
qed

lemma with_decimal_part_int: "with_decimal_part tot cdn = PyInt n \<Longrightarrow> n = tot"
  by (auto simp: with_decimal_part_def split: if_splits option.splits)

lemma words_to_num_nonneg: "words_to_num ws = Inr (PyInt n) \<Longrightarrow> 0 \<le> n"
  by (auto simp: words_to_num_def Let_def and_then_Inr
      dest!: with_decimal_part_int integer_part_nonneg split: if_splits)

lemma py_int_nonneg: "py_int s = Inr n \<Longrightarrow> 0 \<le> n"
proof -
  assume "py_int s = Inr n"
  then have "list_all is_digit s" and "n = text_value s"
    by (auto simp: py_int_def text_value_def split: if_splits)
  with dec_str_text_value [of s] show ?thesis by simp
qed

lemma word_to_num_nonneg: "word_to_num p = Inr (PyInt n) \<Longrightarrow> 0 \<le> n"
  by (auto simp: word_to_num_def Let_def and_then_Inr
      dest: py_int_nonneg words_to_num_nonneg split: if_splits)

lemma word_to_num_no_words:
  "\<not> isdigit (lower (replace_hyphens p))
     \<Longrightarrow> filter in_number_system (split (strip (lower (replace_hyphens p)))) = []
     \<Longrightarrow> word_to_num p = Inl ValueError"
  by (simp add: word_to_num_def)

lemma lower_letters_word: "lower_letters w \<Longrightarrow> is_word (hd w) \<and> \<not> is_digit (hd w)"
  by (cases w) (auto simp: lower_letters_def is_word_def is_digit_def in_range_def Let_def)

lemma separator_quiet:
  assumes "is_separator u"
  shows "quiet u"
proof -
  from assms obtain c where u: "u = [c]" and c: "\<not> is_word c" "\<not> is_space c"
    by (auto simp: is_separator_def split: list.splits if_splits)
  have l: "lower_char c = c" using c by (simp add: lower_char_nonword)
  show ?thesis
  proof (cases "c = CHR ''-''")
    case True
    have "lower (replace_hyphens (lower ''-'')) = '' ''" by code_simp
    moreover have "split '' '' = []" by (simp add: split_space is_space_blank split_Nil)
    ultimately show ?thesis by (simp add: quiet_def u True)
  next
    case False
    then have h: "lower (replace_hyphens (lower u)) = [c]"
      by (simp add: u lower_def replace_hyphens_def l)
    have s: "split [c] = [[c]]" using c by (intro split_word) simp_all
    have "\<not> in_number_system [c]"
      using key_facts(1) [of "[c]"] lower_letters_word [of "[c]"] c by auto
    with h s show ?thesis by (simp add: quiet_def)
  qed
qed

lemma word_quiet:
  assumes "fullmatch_word u"
  shows "quiet u = (\<not> in_number_system (lower u))"
proof -
  from assms have w: "list_all is_word (lower u)" and ne: "lower u \<noteq> []"
    by (simp_all add: fullmatch_word_def lower_words) (simp add: lower_def)
  have h: "lower (replace_hyphens (lower u)) = lower u"
    using w by (simp add: replace_hyphens_words lower_idem)
  have "split (lower u) = [lower u]"
    using w ne by (intro split_word) (auto simp: list_all_iff word_not_space)
  with h show ?thesis by (simp add: quiet_def)
qed

lemma rejected_word_quiet:
  assumes "fullmatch_word u" and "word_to_num (lower u) = Inl ValueError"
  shows "quiet u"
proof -
  have "\<not> in_number_system (lower u)"
  proof
    assume "in_number_system (lower u)"
    then have "accepted (lower u)" by (rule key_facts(2))
    with assms(2) show False by (simp add: accepted_def)
  qed
  with assms(1) show ?thesis by (simp add: word_quiet)
qed

lemma canonical_word: "canonical u \<Longrightarrow> fullmatch_word u"
  by (simp add: canonical_def fullmatch_word_def digits_are_words)

lemma canonical_quiet:
  assumes "canonical u"
  shows "quiet u"
proof -
  from assms have d: "list_all is_digit u" "u \<noteq> []" by (simp_all add: canonical_def)
  then have "is_digit (hd u)" by (cases u) simp_all
  moreover have "lower u = u" using d by (simp add: lower_digits)
  ultimately have "\<not> in_number_system (lower u)"
    using key_facts(1) [of u] lower_letters_word [of u] by auto
  with canonical_word [OF assms] show ?thesis by (simp add: word_quiet)
qed

lemma settled_quiet: "settled u \<Longrightarrow> quiet u"
  by (auto simp: settled_def rejects_def separator_quiet canonical_quiet rejected_word_quiet
      split: if_splits)

lemma separator_token: "is_separator u \<Longrightarrow> is_token u"
  by (simp add: is_token_def)

lemma settled_token: "settled u \<Longrightarrow> is_token u"
  by (auto simp: settled_def is_token_def canonical_word split: if_splits)

lemma not_py_digit_blank: "\<not> is_py_digit CHR '' ''"
  by (simp add: is_py_digit_def in_range_def cp_def)

lemma window_rejected:
  assumes "2 \<le> length ws" and "list_all quiet ws"
  shows "word_to_num (lower (join_space ws)) = Inl ValueError"
proof -
  define h where "h = (\<lambda>u. lower (replace_hyphens (lower u)))"
  have s: "lower (replace_hyphens (lower (join_space ws))) = join_space (map h ws)"
    by (simp add: lower_join_space replace_hyphens_join_space h_def comp_def)
  have "CHR '' '' \<in> set (join_space (map h ws))"
    using assms(1) by (intro blank_in_join_space) simp
  then have nd: "\<not> isdigit (join_space (map h ws))"
    using not_py_digit_blank by (auto simp: isdigit_def list_all_iff)
  have "filter in_number_system (split (strip (join_space (map h ws))))
      = concat (map (\<lambda>u. filter in_number_system (split (h u))) ws)"
    by (simp add: split_strip split_join_space filter_concat comp_def)
  also have "\<dots> = []"
    using assms(2) by (simp add: list_all_iff quiet_def h_def)
  finally have "filter in_number_system (split (strip (join_space (map h ws)))) = []" .
  with nd show ?thesis
    using word_to_num_no_words [of "lower (join_space ws)"] by (simp add: s)
qed

lemma digit_chars_checked:
  "list_all (\<lambda>n. is_digit (digit_char n) \<and> ((digit_char n = CHR ''0'') = (n = 0)))
     [0..9]"
  by code_simp

lemma digit_char_facts:
  assumes "0 \<le> n" and "n < 10"
  shows "is_digit (digit_char n)" and "(digit_char n = CHR ''0'') = (n = 0)"
proof -
  from assms have "n \<in> set [0..9]" by simp
  with digit_chars_checked
  have "is_digit (digit_char n) \<and> ((digit_char n = CHR ''0'') = (n = 0))"
    unfolding list_all_iff by blast
  then show "is_digit (digit_char n)" and "(digit_char n = CHR ''0'') = (n = 0)" by simp_all
qed

lemma dec_str_shape:
  "0 \<le> n \<Longrightarrow> dec_str n \<noteq> [] \<and> list_all is_digit (dec_str n)
     \<and> (n = 0 \<longrightarrow> dec_str n = ''0'') \<and> (0 < n \<longrightarrow> hd (dec_str n) \<noteq> CHR ''0'')"
proof (induction n rule: dec_str.induct)
  case (1 n)
  show ?case
  proof (cases "n < 10")
    case True
    then have d: "dec_str n = [digit_char n]" by (subst dec_str.simps) simp
    from digit_char_facts [OF "1.prems" True] show ?thesis by (auto simp: d dec_str_zero)
  next
    case False
    then have d: "dec_str n = dec_str (n div 10) @ [digit_char (n mod 10)]"
      by (subst dec_str.simps) simp
    from False have q: "0 < n div 10" by simp
    with "1.IH" [OF False] have IH: "dec_str (n div 10) \<noteq> []"
      "list_all is_digit (dec_str (n div 10))" "hd (dec_str (n div 10)) \<noteq> CHR ''0''"
      by simp_all
    have "is_digit (digit_char (n mod 10))" by (intro digit_char_facts) simp_all
    with IH False show ?thesis by (simp add: d)
  qed
qed

lemma dec_str_canonical: "0 \<le> n \<Longrightarrow> canonical (dec_str n)"
  using dec_str_shape [of n] by (cases "n = 0") (auto simp: canonical_def)

lemma canonical_parse:
  assumes "canonical u"
  shows "word_to_num (lower u) = Inr (PyInt (text_value u))" and "int_str (text_value u) = u"
proof -
  from assms have d: "list_all is_digit u" "u \<noteq> []" by (simp_all add: canonical_def)
  then show "word_to_num (lower u) = Inr (PyInt (text_value u))"
    by (simp add: lower_digits word_to_num_digits)
  from assms d int_str_text_value_same [of u] show "int_str (text_value u) = u"
    by (auto simp: canonical_def split: if_splits)
qed

subsection \<open>The first pass\<close>

lemma match_longest_Some:
  "match_longest w2n tokens i n = Inr (Some (num, j)) \<Longrightarrow> w2n (phrase tokens i j) = Inr num"
proof (induction w2n tokens i n rule: match_longest.induct)
  case (1 w2n tokens i j')
  show ?case
  proof (cases "j' \<le> i")
    case True
    with "1.prems" show ?thesis by (simp add: match_longest.simps)
  next
    case False
    show ?thesis
    proof (cases "w2n (phrase tokens i j')")
      case (Inr x)
      with False "1.prems" show ?thesis by (simp add: match_longest.simps)
    next
      case (Inl e)
      with False "1.prems" "1.IH" show ?thesis
        by (cases e) (simp_all add: match_longest.simps)
    qed
  qed
qed

lemma match_longest_None:
  "match_longest w2n tokens i n = Inr None \<Longrightarrow> i < k \<Longrightarrow> k \<le> n
     \<Longrightarrow> w2n (phrase tokens i k) = Inl ValueError"
proof (induction w2n tokens i n rule: match_longest.induct)
  case (1 w2n tokens i j)
  from "1.prems" have nj: "\<not> j \<le> i" by simp
  show ?case
  proof (cases "w2n (phrase tokens i j)")
    case (Inr x)
    with nj "1.prems" show ?thesis by (simp add: match_longest.simps)
  next
    case (Inl e)
    with nj "1.prems"(1) have e: "e = ValueError"
      by (cases e) (simp_all add: match_longest.simps)
    with nj Inl "1.prems"(1) have r: "match_longest w2n tokens i (j - 1) = Inr None"
      by (simp add: match_longest.simps)
    show ?thesis
    proof (cases "k = j")
      case True
      with Inl e show ?thesis by simp
    next
      case False
      with "1.prems" have "k \<le> j - 1" by simp
      with "1.IH" [OF nj Inl e r "1.prems"(2)] show ?thesis .
    qed
  qed
qed

lemma first_pass_settled:
  assumes tok: "list_all is_token tokens"
    and nf: "\<forall>i k. i < k \<and> k \<le> length tokens \<longrightarrow> no_float word_to_num (phrase tokens i k)"
  shows "while_tokens word_to_num tokens i out = Inr out' \<Longrightarrow> list_all settled out
     \<Longrightarrow> list_all settled out'"
proof (induction "length tokens - i" arbitrary: i out rule: less_induct)
  case less
  show ?case
  proof (cases "i < length tokens")
    case False
    with less.prems show ?thesis by (simp add: while_tokens_done)
  next
    case True
    then have ti: "is_token (tokens ! i)" using tok by (simp add: list_all_length)
    show ?thesis
    proof (cases "fullmatch_word (tokens ! i)")
      case False
      with ti have "settled (tokens ! i)" by (simp add: is_token_def settled_def)
      moreover have "while_tokens word_to_num tokens (i + 1) (out @ [tokens ! i]) = Inr out'"
        using less.prems(1) True False by (simp add: while_tokens_no_match)
      ultimately show ?thesis
        using less.hyps [of "i + 1" "out @ [tokens ! i]"] less.prems(2) True by simp
    next
      case fw: True
      show ?thesis
      proof (cases "match_longest word_to_num tokens i (length tokens)")
        case (Inl e)
        with less.prems(1) True fw show ?thesis by (subst (asm) while_tokens.simps) simp
      next
        case (Inr r)
        show ?thesis
        proof (cases r)
          case None
          with Inr have m: "match_longest word_to_num tokens i (length tokens) = Inr None"
            by simp
          have "word_to_num (phrase tokens i (Suc i)) = Inl ValueError"
            using True by (intro match_longest_None [OF m]) simp_all
          then have "settled (tokens ! i)"
            using True fw by (simp add: phrase_single settled_def rejects_def)
          moreover have "while_tokens word_to_num tokens (i + 1) (out @ [tokens ! i]) = Inr out'"
            using less.prems(1) True m by (simp add: while_tokens_no_match)
          ultimately show ?thesis
            using less.hyps [of "i + 1" "out @ [tokens ! i]"] less.prems(2) True by simp
        next
          case (Some a)
          obtain num j where a: "a = (num, j)" by (cases a)
          with Inr Some
          have m: "match_longest word_to_num tokens i (length tokens) = Inr (Some (num, j))"
            by simp
          from match_longest_bounds [OF m] have b: "i < j" "j \<le> length tokens" by simp_all
          have p: "word_to_num (phrase tokens i j) = Inr num" by (rule match_longest_Some [OF m])
          from nf b have "no_float word_to_num (phrase tokens i j)" by simp
          with p obtain n where n: "num = PyInt n" by (cases num) (simp_all add: no_float_def)
          with p have "0 \<le> n" by (simp add: word_to_num_nonneg)
          then have "settled (py_str num)"
            by (simp add: n int_str_def settled_def dec_str_canonical)
          moreover have "while_tokens word_to_num tokens j (out @ [py_str num]) = Inr out'"
            using less.prems(1) True fw m by (simp add: while_tokens_match)
          ultimately show ?thesis
            using less.hyps [of j "out @ [py_str num]"] less.prems(2) b by simp
        qed
      qed
    qed
  qed
qed

subsection \<open>The tokens of the reassembled units\<close>

lemma tokenize_spaces: "list_all is_space s \<Longrightarrow> tokenize s = []"
  by (induction s) (simp_all add: space_not_word)

lemma tokenize_lstrip: "tokenize (lstrip s) = tokenize s"
  unfolding lstrip_def by (induction s) (simp_all add: space_not_word)

lemma takeWhile_append_none:
  "\<forall>x\<in>set ys. \<not> P x \<Longrightarrow> takeWhile P (xs @ ys) = takeWhile P xs"
proof (induction xs)
  case Nil
  then show ?case by (cases ys) simp_all
next
  case (Cons x xs)
  then show ?case by simp
qed

lemma dropWhile_append_none:
  "\<forall>x\<in>set ys. \<not> P x \<Longrightarrow> dropWhile P (xs @ ys) = dropWhile P xs @ ys"
proof (induction xs)
  case Nil
  then show ?case by (cases ys) simp_all
next
  case (Cons x xs)
  then show ?case by simp
qed

lemma tokenize_append_spaces: "list_all is_space sp \<Longrightarrow> tokenize (a @ sp) = tokenize a"
proof (induction a rule: tokenize.induct)
  case 1
  then show ?case by (simp add: tokenize_spaces)
next
  case (2 c cs)
  have nw: "\<forall>x\<in>set sp. \<not> is_word x" using "2.prems" by (auto simp: list_all_iff space_not_word)
  show ?case
  proof (cases "is_word c")
    case True
    with 2 show ?thesis
      by (simp add: takeWhile_append_none [OF nw] dropWhile_append_none [OF nw])
  next
    case False
    with 2 show ?thesis by simp
  qed
qed

lemma tokenize_rstrip: "tokenize (rstrip s) = tokenize s"
  using tokenize_append_spaces [OF trailing_spaces, of "rstrip s" s] rstrip_decomp [of s] by simp

lemma tokenize_strip: "tokenize (strip s) = tokenize s"
  by (simp add: strip_def tokenize_rstrip tokenize_lstrip)

lemma tokenize_units: "list_all is_token us \<Longrightarrow> tokenize (concat (map unit_text us)) = us"
proof (induction us)
  case Nil
  show ?case by simp
next
  case (Cons u us)
  then have IH: "tokenize (concat (map unit_text us)) = us" and u: "is_token u" by simp_all
  show ?case
  proof (cases "fullmatch_word u")
    case True
    then have w: "u \<noteq> []" "list_all is_word u" by (simp_all add: fullmatch_word_def)
    then have ut: "unit_text u = u @ '' ''" by (simp add: unit_text_def fullmatch_nonword_word)
    have "\<not> starts_word ('' '' @ concat (map unit_text us))"
      by (simp add: starts_word_def is_word_def in_range_def cp_def)
    then have "tokenize (u @ '' '' @ concat (map unit_text us))
        = u # tokenize ('' '' @ concat (map unit_text us))"
      using w by (intro tokenize_word_run) simp_all
    also have "\<dots> = u # us"
      using IH by (simp add: is_space_blank space_not_word [OF is_space_blank])
    finally show ?thesis by (simp add: ut)
  next
    case False
    with u obtain c where c: "u = [c]" "\<not> is_word c" "\<not> is_space c"
      by (auto simp: is_token_def is_separator_def split: list.splits if_splits)
    then have "unit_text u = [c]" by (simp add: unit_text_def)
    with c IH show ?thesis by simp
  qed
qed

lemma tokenize_reassemble: "list_all is_token us \<Longrightarrow> tokenize (reassemble us) = us"
  by (simp add: reassemble_def tokenize_strip tokenize_units)

subsection \<open>The second pass\<close>

lemma second_pass_same:
  assumes "list_all settled us"
  shows "while_tokens word_to_num us i acc = Inr (acc @ drop i us)"
proof (induction "length us - i" arbitrary: i acc rule: less_induct)
  case less
  show ?case
  proof (cases "i < length us")
    case False
    then show ?thesis by (simp add: while_tokens_done)
  next
    case True
    then have s: "settled (us ! i)" using assms by (simp add: list_all_length)
    have long: "word_to_num (phrase us i k) = Inl ValueError" if k: "Suc i < k" "k \<le> length us" for k
    proof -
      have "list_all quiet (slice us i k)"
        using assms by (auto simp: slice_def list_all_iff settled_quiet dest!: in_set_takeD in_set_dropD)
      moreover have "2 \<le> length (slice us i k)" using k by (simp add: slice_def)
      ultimately show ?thesis unfolding phrase_def by (rule window_rejected [rotated])
    qed
    have IH: "while_tokens word_to_num us (Suc i) (acc @ [us ! i]) = Inr (acc @ drop i us)"
      using less [of "Suc i" "acc @ [us ! i]"] True by (simp add: Cons_nth_drop_Suc)
    show ?thesis
    proof (cases "canonical (us ! i)")
      case True
      note c = canonical_parse [OF True]
      have "match_longest word_to_num us i (length us)
          = Inr (Some (PyInt (text_value (us ! i)), Suc i))"
        using \<open>i < length us\<close> c(1) long
        by (intro match_longest_found) (simp_all add: phrase_single)
      then have "while_tokens word_to_num us i acc
          = while_tokens word_to_num us (Suc i) (acc @ [py_str (PyInt (text_value (us ! i)))])"
        using \<open>i < length us\<close> canonical_word [OF True] by (intro while_tokens_match) simp_all
      with IH c(2) show ?thesis by simp
    next
      case False
      have "\<not> fullmatch_word (us ! i)
          \<or> match_longest word_to_num us i (length us) = Inr None"
      proof (cases "fullmatch_word (us ! i)")
        case fw: True
        with s False have "word_to_num (lower (us ! i)) = Inl ValueError"
          by (auto simp: settled_def rejects_def is_separator_def fullmatch_word_def
              split: if_splits list.splits)
        then have "\<forall>k. i < k \<and> k \<le> length us \<longrightarrow> word_to_num (phrase us i k) = Inl ValueError"
          using long \<open>i < length us\<close>
          by (metis Suc_lessI phrase_single)
        then show ?thesis using \<open>i < length us\<close> by (intro disjI2 match_longest_none) simp_all
      next
        case False
        then show ?thesis by simp
      qed
      then have "while_tokens word_to_num us i acc
          = while_tokens word_to_num us (i + 1) (acc @ [us ! i])"
        using \<open>i < length us\<close> by (intro while_tokens_no_match)
      with IH show ?thesis by simp
    qed
  qed
qed

subsection \<open>Idempotence\<close>

text \<open>
  C5, amended. For the language \<open>en\<close>, when the normalizer returns \<open>y\<close> for a text and
  the grammar returns no float for any window of the text, the normalizer returns \<open>y\<close>
  for \<open>y\<close>: the digit strings, the rejected words and the separators of the first pass
  come back as they are.
\<close>

theorem C5_idempotent_without_floats:
  assumes "replace_number_words word_to_num x ''en'' = Inr y"
    and "list_all (no_float word_to_num) (all_windows (tokenize x))"
  shows "replace_number_words word_to_num y ''en'' = Inr y"
proof -
  from assms(1) obtain out where out: "while_tokens word_to_num (tokenize x) 0 [] = Inr out"
    and y: "y = reassemble out"
    by (auto simp: replace_number_words_def split: sum.splits)
  have nf: "\<forall>i k. i < k \<and> k \<le> length (tokenize x)
      \<longrightarrow> no_float word_to_num (phrase (tokenize x) i k)"
    using assms(2) by (simp add: all_windows_iff)
  have s: "list_all settled out"
    using first_pass_settled [OF tokens_shape nf out] by simp
  then have t: "tokenize (reassemble out) = out"
    by (simp add: tokenize_reassemble list_all_iff settled_token)
  have "while_tokens word_to_num out 0 [] = Inr ([] @ drop 0 out)"
    using s by (rule second_pass_same)
  then show ?thesis by (simp add: replace_number_words_def t y)
qed

theorem C5_idempotent_without_floats_witness:
  "replace_number_words word_to_num ''the quick 007 fox.'' ''en'' = Inr ''the quick 7 fox .''
   \<and> list_all (no_float word_to_num) (all_windows (tokenize ''the quick 007 fox.''))
   \<and> replace_number_words word_to_num ''the quick 7 fox .'' ''en'' = Inr ''the quick 7 fox .''"
proof -
  have a: "replace_number_words word_to_num ''the quick 007 fox.'' ''en''
      = Inr ''the quick 7 fox .''" by code_simp
  have b: "list_all (no_float word_to_num) (all_windows (tokenize ''the quick 007 fox.''))"
    by code_simp
  from a b C5_idempotent_without_floats [OF a b] show ?thesis by blast
qed

end
